theory Spec2Isabelle
  imports Main "HOL-Library.Word" "HOL-Library.Multiset"
begin

section \<open>Data model\<close>

text \<open>
  A shallow embedding of \<^verbatim>\<open>upload.py\<close> of the Dropbox upload add-on: hashing,
  chunked upload, the per-snapshot decision, the batch loop and the retention step.
  Loading the configuration, setting up logging, formatting sizes and the endless driver
  loop of \<^verbatim>\<open>main\<close> are left out.

  A snapshot is the dictionary the supervisor returns, with the keys the code reads.
  The field \<open>date\<close> holds the instant that \<^verbatim>\<open>arrow.get(x["date"])\<close> denotes, so the
  parsing of the date string is not part of the model.
\<close>

type_synonym byte = "8 word"

record snapshot =
  slug :: string
  name :: string
  date :: int

text \<open>
  The configuration dictionary: \<^verbatim>\<open>config["dropbox_dir"]\<close> and
  \<^verbatim>\<open>config.get("keep")\<close>, which is \<open>None\<close> when the key is absent.
\<close>

record config =
  dropbox_dir :: string
  keep :: "int option"

text \<open>Exceptions are values. Every one of them derives from Python's \<open>Exception\<close>.\<close>

datatype error = FileNotFoundError | PermissionError | RemoteError string

text \<open>
  A file of the backup directory as the code can meet it: absent (\<^verbatim>\<open>os.path.getsize\<close>
  and \<^verbatim>\<open>open\<close> both raise), present but not readable (its size is known, \<^verbatim>\<open>open\<close>
  raises), or readable with its bytes.
\<close>

datatype local_file = Missing | Unreadable nat | Readable "byte list"

text \<open>
  Every call that leaves the process is recorded, in order, with its arguments.
\<close>

datatype event =
    Files_get_metadata string
  | Files_delete string
  | Files_upload "byte list" string
  | Session_start "byte list"
  | Session_append "byte list" string nat
  | Session_finish "byte list" string nat string
  | Hassio_post string

datatype level = Info | Warning | Exception_log

text \<open>
  The state the code acts on: the calls made so far, the log lines written so far, and the
  store of list objects (a list is passed by reference, so a callee that sorts it in place
  changes what the caller sees). Of the log lines, those of \<^verbatim>\<open>file_exists\<close>, the slug,
  target and outcome lines of \<^verbatim>\<open>process_snapshot\<close>, the final \<open>100 %\<close> of an upload and
  the early-return lines of \<^verbatim>\<open>backup\<close> and \<^verbatim>\<open>limit_snapshots\<close> are recorded; debug
  lines and the remaining progress lines (sizes, percentages, counts, dates, names) are
  not.
\<close>

record world =
  trace :: "event list"
  logs :: "(level \<times> string) list"
  lists :: "nat \<Rightarrow> snapshot list"

text \<open>
  The Dropbox client \<^verbatim>\<open>dbx\<close>. Each method answers from the number of calls made before
  it and its arguments: \<open>Inl\<close> is a raised exception. A call may therefore fail once and
  succeed when it is repeated.
\<close>

record dbx =
  files_get_metadata :: "nat \<Rightarrow> string \<Rightarrow> error + string"
  files_delete :: "nat \<Rightarrow> string \<Rightarrow> error + unit"
  files_upload :: "nat \<Rightarrow> byte list \<Rightarrow> string \<Rightarrow> error + unit"
  files_upload_session_start :: "nat \<Rightarrow> byte list \<Rightarrow> error + string"
  files_upload_session_append :: "nat \<Rightarrow> byte list \<Rightarrow> string \<Rightarrow> nat \<Rightarrow> error + unit"
  files_upload_session_finish ::
    "nat \<Rightarrow> byte list \<Rightarrow> string \<Rightarrow> nat \<Rightarrow> string \<Rightarrow> error + unit"

text \<open>
  What the module reaches through globals: the files of the backup directory, the digest
  \<^verbatim>\<open>hashlib.sha256(...).digest()\<close> (a library function, taken as a parameter), and the
  supervisor behind \<^verbatim>\<open>hassio_post\<close>, which raises or returns.
\<close>

record host =
  files :: "string \<Rightarrow> local_file"
  sha256 :: "byte list \<Rightarrow> byte list"
  hassio_post :: "nat \<Rightarrow> string \<Rightarrow> error + unit"

definition CHUNK_SIZE :: nat where
  "CHUNK_SIZE = 4 * 1024 * 1024"

definition now :: "world \<Rightarrow> nat" where
  "now w = length (trace w)"

definition call :: "event \<Rightarrow> world \<Rightarrow> world" where
  "call e w = w\<lparr>trace := trace w @ [e]\<rparr>"

definition log :: "level \<Rightarrow> string \<Rightarrow> world \<Rightarrow> world" where
  "log l m w = w\<lparr>logs := logs w @ [(l, m)]\<rparr>"

section \<open>Paths and files\<close>

text \<open>
  \<^verbatim>\<open>pathlib\<close>'s \<^verbatim>\<open>/\<close> on a directory and a file name: an absolute right operand replaces
  the left one, the current directory (printed as a single dot) adds nothing, and
  otherwise the two are joined by one separator. The directory is taken as
  \<^verbatim>\<open>pathlib.Path\<close> prints it.
\<close>

definition path_join :: "string \<Rightarrow> string \<Rightarrow> string" where
  "path_join d f =
     (if f \<noteq> [] \<and> hd f = CHR ''/'' then f
      else if d = ''.'' then f
      else if d \<noteq> [] \<and> last d = CHR ''/'' then d @ f
      else d @ ''/'' @ f)"

definition BACKUP_DIR :: string where
  "BACKUP_DIR = ''/backup''"

definition local_path :: "snapshot \<Rightarrow> string" where
  "local_path s = path_join BACKUP_DIR (slug s @ ''.tar'')"

definition dropbox_path :: "string \<Rightarrow> snapshot \<Rightarrow> string" where
  "dropbox_path d s = path_join d (slug s @ ''.tar'')"

definition open_rb :: "host \<Rightarrow> string \<Rightarrow> error + byte list" where
  "open_rb h p =
     (case files h p of
        Missing \<Rightarrow> Inl FileNotFoundError
      | Unreadable n \<Rightarrow> Inl PermissionError
      | Readable bs \<Rightarrow> Inr bs)"

definition getsize :: "host \<Rightarrow> string \<Rightarrow> error + nat" where
  "getsize h p =
     (case files h p of
        Missing \<Rightarrow> Inl FileNotFoundError
      | Unreadable n \<Rightarrow> Inr n
      | Readable bs \<Rightarrow> Inr (length bs))"

section \<open>Chunked upload\<close>

text \<open>
  The \<^verbatim>\<open>while f.tell() < file_size\<close> loop of \<^verbatim>\<open>upload_file\<close>. \<open>pos\<close> is \<^verbatim>\<open>f.tell()\<close>,
  \<open>offset\<close> is \<^verbatim>\<open>cursor.offset\<close>, and \<^verbatim>\<open>file_size\<close> is the length of the opened file.
  A call that raises ends the loop with the error; the call itself has been made.
\<close>

function upload_session_loop ::
  "dbx \<Rightarrow> byte list \<Rightarrow> string \<Rightarrow> string \<Rightarrow> nat \<Rightarrow> nat \<Rightarrow> world \<Rightarrow> (error + unit) \<times> world"
where
  "upload_session_loop d content dest sid offset pos w =
     (if pos < length content then
        (let chunk = take CHUNK_SIZE (drop pos content) in
         if length content - pos \<le> CHUNK_SIZE then
           (case files_upload_session_finish d (now w) chunk sid offset dest of
              Inl e \<Rightarrow> (Inl e, call (Session_finish chunk sid offset dest) w)
            | Inr u \<Rightarrow>
                upload_session_loop d content dest sid offset (pos + length chunk)
                  (call (Session_finish chunk sid offset dest) w))
         else
           (case files_upload_session_append d (now w) chunk sid offset of
              Inl e \<Rightarrow> (Inl e, call (Session_append chunk sid offset) w)
            | Inr u \<Rightarrow>
                upload_session_loop d content dest sid (pos + length chunk)
                  (pos + length chunk) (call (Session_append chunk sid offset) w)))
      else (Inr (), log Info ''100 %'' w))"
  by pat_completeness auto
termination
  by (relation "measure (\<lambda>(d, content, dest, sid, offset, pos, w). length content - pos)")
     (auto simp: CHUNK_SIZE_def)

text \<open>
  The body of \<^verbatim>\<open>upload_file\<close>: one attempt. The file is opened and its size read; a file
  of at most one chunk goes in one call, a longer one through a session.
\<close>

definition upload_file_body ::
  "dbx \<Rightarrow> host \<Rightarrow> string \<Rightarrow> string \<Rightarrow> world \<Rightarrow> (error + unit) \<times> world"
where
  "upload_file_body d h file_path dest_path w =
     (case open_rb h file_path of
        Inl e \<Rightarrow> (Inl e, w)
      | Inr content \<Rightarrow>
          (case getsize h file_path of
             Inl e \<Rightarrow> (Inl e, w)
           | Inr file_size \<Rightarrow>
               if file_size \<le> CHUNK_SIZE then
                 (case files_upload d (now w) content dest_path of
                    Inl e \<Rightarrow> (Inl e, call (Files_upload content dest_path) w)
                  | Inr u \<Rightarrow> (Inr (), call (Files_upload content dest_path) w))
               else
                 (let chunk = take CHUNK_SIZE content in
                  case files_upload_session_start d (now w) chunk of
                    Inl e \<Rightarrow> (Inl e, call (Session_start chunk) w)
                  | Inr sid \<Rightarrow>
                      upload_session_loop d content dest_path sid (length chunk)
                        (length chunk) (call (Session_start chunk) w))))"

text \<open>
  Modelled from the spec: the decorator \<^verbatim>\<open>retrace.retry(limit=4)\<close> comes from a library
  that is not part of the sources. The spec gives it as a bounded retry of the whole call:
  an attempt that raises is followed by a new attempt until the limit of attempts is
  reached, and then the error propagates. \<open>retry_loop n\<close> allows \<open>n\<close> further attempts
  after the current one.
\<close>

fun retry_loop ::
  "nat \<Rightarrow> (world \<Rightarrow> (error + 'a) \<times> world) \<Rightarrow> world \<Rightarrow> (error + 'a) \<times> world"
where
  "retry_loop 0 f w = f w"
| "retry_loop (Suc n) f w =
     (case f w of
        (Inl e, w') \<Rightarrow> retry_loop n f w'
      | (Inr v, w') \<Rightarrow> (Inr v, w'))"

definition retry ::
  "nat \<Rightarrow> (world \<Rightarrow> (error + 'a) \<times> world) \<Rightarrow> world \<Rightarrow> (error + 'a) \<times> world"
where
  "retry limit f w = retry_loop (limit - 1) f w"

definition upload_file ::
  "dbx \<Rightarrow> host \<Rightarrow> string \<Rightarrow> string \<Rightarrow> world \<Rightarrow> (error + unit) \<times> world"
where
  "upload_file d h file_path dest_path w =
     retry 4 (upload_file_body d h file_path dest_path) w"

section \<open>Content hash\<close>

text \<open>
  The read loop of \<^verbatim>\<open>compute_dropbox_hash\<close>: blocks of \<^verbatim>\<open>CHUNK_SIZE\<close> bytes are read until
  a read returns nothing, and their digests are concatenated in read order.
\<close>

function block_hashes :: "(byte list \<Rightarrow> byte list) \<Rightarrow> byte list \<Rightarrow> byte list" where
  "block_hashes sha rest =
     (let chunk = take CHUNK_SIZE rest in
      if chunk = [] then []
      else sha chunk @ block_hashes sha (drop CHUNK_SIZE rest))"
  by pat_completeness auto
termination
  by (relation "measure (\<lambda>(sha, rest). length rest)") (auto simp: CHUNK_SIZE_def)

definition hex_digit :: "nat \<Rightarrow> char" where
  "hex_digit n = ''0123456789abcdef'' ! n"

definition hexdigest :: "byte list \<Rightarrow> string" where
  "hexdigest bs = concat (map (\<lambda>b. [hex_digit (unat b div 16), hex_digit (unat b mod 16)]) bs)"

definition compute_dropbox_hash :: "host \<Rightarrow> string \<Rightarrow> error + string" where
  "compute_dropbox_hash h filename =
     (case open_rb h filename of
        Inl e \<Rightarrow> Inl e
      | Inr content \<Rightarrow> Inr (hexdigest (sha256 h (block_hashes (sha256 h) content))))"

section \<open>The per-snapshot decision\<close>

text \<open>
  \<^verbatim>\<open>file_exists\<close>: only the metadata call is inside the \<^verbatim>\<open>try\<close>; the hash of the local
  file and the delete call are made outside it, so their errors leave the function.
\<close>

definition file_exists ::
  "dbx \<Rightarrow> host \<Rightarrow> string \<Rightarrow> string \<Rightarrow> world \<Rightarrow> (error + bool) \<times> world"
where
  "file_exists d h file_path dest_path w =
     (let w1 = call (Files_get_metadata dest_path) w in
      case files_get_metadata d (now w) dest_path of
        Inl e \<Rightarrow> (Inr False, log Info ''No existing snapshot in dropox with this name'' w1)
      | Inr dropbox_hash \<Rightarrow>
          (case compute_dropbox_hash h file_path of
             Inl e \<Rightarrow> (Inl e, w1)
           | Inr local_hash \<Rightarrow>
               if local_hash = dropbox_hash then (Inr True, w1)
               else
                 (let w2 = log Warning
                        (''The snapshot conflicts with a file name in dropbox, the contents ''
                         @ ''are different. The dropbox file will be deleted and replaced. ''
                         @ ''Local hash: '' @ local_hash @ '', Dropbox hash: '' @ dropbox_hash)
                        w1;
                      w3 = call (Files_delete dest_path) w2
                  in case files_delete d (now w2) dest_path of
                       Inl e \<Rightarrow> (Inl e, w3)
                     | Inr u \<Rightarrow> (Inr False, w3))))"

text \<open>
  \<^verbatim>\<open>process_snapshot\<close>: the size of the local file is read for the log before the
  \<^verbatim>\<open>try\<close>, so a failure there leaves the function; inside the \<^verbatim>\<open>try\<close> every error is
  logged and dropped.
\<close>

definition process_snapshot ::
  "string \<Rightarrow> dbx \<Rightarrow> host \<Rightarrow> snapshot \<Rightarrow> world \<Rightarrow> (error + unit) \<times> world"
where
  "process_snapshot dir d h s w =
     (let path = local_path s in
      case getsize h path of
        Inl e \<Rightarrow> (Inl e, w)
      | Inr file_size \<Rightarrow>
          (let target = dropbox_path dir s;
               w0 = log Info (''Uploading to: '' @ target) (log Info (''Slug: '' @ slug s) w)
           in case file_exists d h path target w0 of
                (Inl e, w1) \<Rightarrow> (Inr (), log Exception_log ''Upload failed'' w1)
              | (Inr True, w1) \<Rightarrow>
                  (Inr (), log Info ''Already found in Dropbox with the same hash'' w1)
              | (Inr False, w1) \<Rightarrow>
                  (case upload_file d h path target w1 of
                     (Inl e, w2) \<Rightarrow> (Inr (), log Exception_log ''Upload failed'' w2)
                   | (Inr u, w2) \<Rightarrow> (Inr (), w2))))"

section \<open>The batch and the retention step\<close>

text \<open>Python's \<^verbatim>\<open>xs[:k]\<close> and \<^verbatim>\<open>xs[k:]\<close>, where a negative \<open>k\<close> counts from the end.\<close>

definition slice_to :: "int \<Rightarrow> 'a list \<Rightarrow> 'a list" where
  "slice_to k xs = (if 0 \<le> k then take (nat k) xs else take (nat (int (length xs) + k)) xs)"

definition slice_from :: "int \<Rightarrow> 'a list \<Rightarrow> 'a list" where
  "slice_from k xs = (if 0 \<le> k then drop (nat k) xs else drop (nat (int (length xs) + k)) xs)"

text \<open>The \<^verbatim>\<open>for\<close> loop of \<^verbatim>\<open>backup\<close>: an error that leaves one snapshot ends the loop.\<close>

fun backup_loop ::
  "string \<Rightarrow> dbx \<Rightarrow> host \<Rightarrow> snapshot list \<Rightarrow> world \<Rightarrow> (error + unit) \<times> world"
where
  "backup_loop dir d h [] w = (Inr (), w)"
| "backup_loop dir d h (s # ss) w =
     (case process_snapshot dir d h s w of
        (Inl e, w') \<Rightarrow> (Inl e, w')
      | (Inr u, w') \<Rightarrow> backup_loop dir d h ss w')"

text \<open>
  \<^verbatim>\<open>backup\<close> receives the list by reference and reads it; the slice \<^verbatim>\<open>snapshots[:keep]\<close>
  is a new list bound to the local name only.
\<close>

definition backup :: "dbx \<Rightarrow> host \<Rightarrow> config \<Rightarrow> nat \<Rightarrow> world \<Rightarrow> (error + unit) \<times> world" where
  "backup d h c snapshots w =
     (let xs = lists w snapshots in
      if xs = [] then (Inr (), log Warning ''No snapshots found to backup'' w)
      else
        (let ys = (case keep c of
                     None \<Rightarrow> xs
                   | Some k \<Rightarrow> if k \<noteq> 0 \<and> int (length xs) > k then slice_to k xs else xs)
         in backup_loop (dropbox_dir c) d h ys w))"

text \<open>
  The \<^verbatim>\<open>for\<close> loop of \<^verbatim>\<open>limit_snapshots\<close>: for each expired snapshot the removal request
  to the supervisor, then the delete call on the remote path.
\<close>

definition remove_path :: "snapshot \<Rightarrow> string" where
  "remove_path s = ''snapshots/'' @ slug s @ ''/remove''"

fun delete_loop ::
  "string \<Rightarrow> dbx \<Rightarrow> host \<Rightarrow> snapshot list \<Rightarrow> world \<Rightarrow> (error + unit) \<times> world"
where
  "delete_loop dir d h [] w = (Inr (), w)"
| "delete_loop dir d h (s # ss) w =
     (let w1 = call (Hassio_post (remove_path s)) w in
      case hassio_post h (now w) (remove_path s) of
        Inl e \<Rightarrow> (Inl e, w1)
      | Inr u \<Rightarrow>
          (let w2 = call (Files_delete (dropbox_path dir s)) w1 in
           case files_delete d (now w1) (dropbox_path dir s) of
             Inl e \<Rightarrow> (Inl e, w2)
           | Inr u' \<Rightarrow> delete_loop dir d h ss w2))"

text \<open>
  \<^verbatim>\<open>limit_snapshots\<close> receives the list by reference; \<^verbatim>\<open>sort\<close> (stable, ascending by
  date) and \<^verbatim>\<open>reverse\<close> work in place, so the store is updated before the expired
  entries are taken.
\<close>

definition limit_snapshots ::
  "dbx \<Rightarrow> host \<Rightarrow> config \<Rightarrow> nat \<Rightarrow> world \<Rightarrow> (error + unit) \<times> world"
where
  "limit_snapshots d h c snapshots w =
     (case keep c of
        None \<Rightarrow> (Inr (), log Warning ''keep not set. We wont remove old snapshots'' w)
      | Some k \<Rightarrow>
          if k = 0 then (Inr (), log Warning ''keep not set. We wont remove old snapshots'' w)
          else if int (length (lists w snapshots)) \<le> k then
            (Inr (), log Info ''Not reached the maximum number of snapshots'' w)
          else
            (let sorted = rev (sort_key date (lists w snapshots));
                 w1 = w\<lparr>lists := (lists w)(snapshots := sorted)\<rparr>;
                 expired_snapshots = slice_from k sorted
             in delete_loop (dropbox_dir c) d h expired_snapshots w1))"

section \<open>Reading the record of calls\<close>

text \<open>The bytes a call carries to the remote store.\<close>

fun payload :: "event \<Rightarrow> byte list" where
  "payload (Files_upload bs p) = bs"
| "payload (Session_start bs) = bs"
| "payload (Session_append bs sid off) = bs"
| "payload (Session_finish bs sid off p) = bs"
| "payload (Files_get_metadata p) = []"
| "payload (Files_delete p) = []"
| "payload (Hassio_post p) = []"

fun is_append :: "event \<Rightarrow> bool" where
  "is_append (Session_append bs sid off) = True"
| "is_append e = False"

fun is_finish :: "event \<Rightarrow> bool" where
  "is_finish (Session_finish bs sid off p) = True"
| "is_finish e = False"

fun is_upload_event :: "event \<Rightarrow> bool" where
  "is_upload_event (Files_upload bs p) = True"
| "is_upload_event (Session_start bs) = True"
| "is_upload_event (Session_append bs sid off) = True"
| "is_upload_event (Session_finish bs sid off p) = True"
| "is_upload_event e = False"

fun is_delete_event :: "event \<Rightarrow> bool" where
  "is_delete_event (Files_delete p) = True"
| "is_delete_event (Hassio_post p) = True"
| "is_delete_event e = False"

text \<open>
  One whole upload of the bytes \<open>bs\<close> to \<open>dest\<close>, as a sequence of calls: the single call
  for a file of at most one chunk; otherwise a session start with the first chunk, then
  append calls only, then a finish call, carrying together the bytes of the file in order.
\<close>

definition complete_upload :: "byte list \<Rightarrow> string \<Rightarrow> event list \<Rightarrow> bool" where
  "complete_upload bs dest evs =
     (if length bs \<le> CHUNK_SIZE then evs = [Files_upload bs dest]
      else 2 \<le> length evs \<and> hd evs = Session_start (take CHUNK_SIZE bs) \<and>
           list_all is_append (butlast (tl evs)) \<and> is_finish (last evs) \<and>
           concat (map payload evs) = bs)"

text \<open>The call an upload that starts at byte 0 makes first.\<close>

definition first_call :: "byte list \<Rightarrow> string \<Rightarrow> event" where
  "first_call bs dest =
     (if length bs \<le> CHUNK_SIZE then Files_upload bs dest
      else Session_start (take CHUNK_SIZE bs))"

text \<open>The state in which attempt \<open>k + 1\<close> of a retried call starts.\<close>

definition attempt_world ::
  "(world \<Rightarrow> (error + 'a) \<times> world) \<Rightarrow> nat \<Rightarrow> world \<Rightarrow> world"
where
  "attempt_world f k w = ((\<lambda>v. snd (f v)) ^^ k) w"

text \<open>The calls made after the state \<open>w\<close>, read from the state \<open>w'\<close> reached from it.\<close>

definition calls_since :: "world \<Rightarrow> world \<Rightarrow> event list" where
  "calls_since w w' = drop (length (trace w)) (trace w')"

text \<open>The session calls of the client never raise.\<close>

definition sessions_return :: "dbx \<Rightarrow> bool" where
  "sessions_return d =
     ((\<forall>t c. \<not> isl (files_upload_session_start d t c)) \<and>
      (\<forall>t c sid off. \<not> isl (files_upload_session_append d t c sid off)) \<and>
      (\<forall>t c sid off p. \<not> isl (files_upload_session_finish d t c sid off p)))"

text \<open>
  Two parts of \<^verbatim>\<open>process_snapshot\<close> by themselves: the log lines written before the
  \<^verbatim>\<open>try\<close>, and the statements inside the \<^verbatim>\<open>try\<close> without the handler, so that
  an error of theirs is still visible.
\<close>

definition announce :: "string \<Rightarrow> snapshot \<Rightarrow> world \<Rightarrow> world" where
  "announce dir s w =
     log Info (''Uploading to: '' @ dropbox_path dir s) (log Info (''Slug: '' @ slug s) w)"

definition process_snapshot_try ::
  "string \<Rightarrow> dbx \<Rightarrow> host \<Rightarrow> snapshot \<Rightarrow> world \<Rightarrow> (error + unit) \<times> world"
where
  "process_snapshot_try dir d h s w0 =
     (case file_exists d h (local_path s) (dropbox_path dir s) w0 of
        (Inl e, w1) \<Rightarrow> (Inl e, w1)
      | (Inr True, w1) \<Rightarrow>
          (Inr (), log Info ''Already found in Dropbox with the same hash'' w1)
      | (Inr False, w1) \<Rightarrow> upload_file d h (local_path s) (dropbox_path dir s) w1)"

text \<open>The upload calls of the client never raise.\<close>

definition uploads_return :: "dbx \<Rightarrow> bool" where
  "uploads_return d = ((\<forall>t c p. \<not> isl (files_upload d t c p)) \<and> sessions_return d)"

text \<open>The removal request and the delete call never raise.\<close>

definition deletes_return :: "dbx \<Rightarrow> host \<Rightarrow> bool" where
  "deletes_return d h =
     ((\<forall>t p. \<not> isl (hassio_post h t p)) \<and> (\<forall>t p. \<not> isl (files_delete d t p)))"

text \<open>
  The calls that delete the snapshots \<open>xs\<close> on both sides, in order: for each one the
  removal request by slug and the delete call on the derived remote path.
\<close>

definition deletion_calls :: "string \<Rightarrow> snapshot list \<Rightarrow> event list" where
  "deletion_calls dir xs =
     concat (map (\<lambda>s. [Hassio_post (remove_path s), Files_delete (dropbox_path dir s)]) xs)"

text \<open>
  The retention set in the words of the spec: of the snapshots \<open>xs\<close> in ascending order
  of date, the \<open>k\<close> oldest are the first \<open>k\<close> and the \<open>k\<close> newest are the last \<open>k\<close>.
\<close>

definition oldest :: "nat \<Rightarrow> snapshot list \<Rightarrow> snapshot list" where
  "oldest k xs = take k (sort_key date xs)"

definition newest :: "nat \<Rightarrow> snapshot list \<Rightarrow> snapshot list" where
  "newest k xs = drop (length xs - k) (sort_key date xs)"

fun is_metadata_event :: "event \<Rightarrow> bool" where
  "is_metadata_event (Files_get_metadata p) = True"
| "is_metadata_event e = False"

section \<open>Concrete inputs\<close>

text \<open>
  A state with nothing done yet, and one in which every reference holds the list \<open>xs\<close>;
  a client whose metadata call answers \<open>m\<close> and whose other
  calls raise when made before the \<open>n\<close>-th call and return afterwards; a client of which
  only the call made after \<open>n\<close> earlier calls raises; a host whose files
  are all \<open>f\<close>, with the identity standing in for the digest; the same host with the
  file at one path absent; a snapshot.
\<close>

definition world0 :: world where
  "world0 = \<lparr>trace = [], logs = [], lists = (\<lambda>r. [])\<rparr>"

definition world_listing :: "snapshot list \<Rightarrow> world" where
  "world_listing xs = \<lparr>trace = [], logs = [], lists = (\<lambda>r. xs)\<rparr>"

definition dbx_after :: "nat \<Rightarrow> error + string \<Rightarrow> dbx" where
  "dbx_after n m =
     \<lparr>files_get_metadata = (\<lambda>t p. m),
      files_delete = (\<lambda>t p. if t < n then Inl (RemoteError ''timeout'') else Inr ()),
      files_upload = (\<lambda>t c p. if t < n then Inl (RemoteError ''timeout'') else Inr ()),
      files_upload_session_start =
        (\<lambda>t c. if t < n then Inl (RemoteError ''timeout'') else Inr ''session''),
      files_upload_session_append =
        (\<lambda>t c sid off. if t < n then Inl (RemoteError ''timeout'') else Inr ()),
      files_upload_session_finish =
        (\<lambda>t c sid off p. if t < n then Inl (RemoteError ''timeout'') else Inr ())\<rparr>"

definition dbx_fails_at :: "nat \<Rightarrow> error + string \<Rightarrow> dbx" where
  "dbx_fails_at n m =
     \<lparr>files_get_metadata = (\<lambda>t p. m),
      files_delete = (\<lambda>t p. if t = n then Inl (RemoteError ''timeout'') else Inr ()),
      files_upload = (\<lambda>t c p. if t = n then Inl (RemoteError ''timeout'') else Inr ()),
      files_upload_session_start =
        (\<lambda>t c. if t = n then Inl (RemoteError ''timeout'') else Inr ''session''),
      files_upload_session_append =
        (\<lambda>t c sid off. if t = n then Inl (RemoteError ''timeout'') else Inr ()),
      files_upload_session_finish =
        (\<lambda>t c sid off p. if t = n then Inl (RemoteError ''timeout'') else Inr ())\<rparr>"

definition host_with :: "local_file \<Rightarrow> host" where
  "host_with f = \<lparr>files = (\<lambda>p. f), sha256 = (\<lambda>bs. bs), hassio_post = (\<lambda>t p. Inr ())\<rparr>"

definition host_missing :: "string \<Rightarrow> local_file \<Rightarrow> host" where
  "host_missing q f =
     \<lparr>files = (\<lambda>p. if p = q then Missing else f), sha256 = (\<lambda>bs. bs),
      hassio_post = (\<lambda>t p. Inr ())\<rparr>"

definition snap :: "string \<Rightarrow> int \<Rightarrow> snapshot" where
  "snap sl dt = \<lparr>slug = sl, name = sl, date = dt\<rparr>"

declare upload_session_loop.simps [simp del]
declare block_hashes.simps [simp del]

section \<open>Basic facts\<close>

lemma CHUNK_SIZE_pos: "0 < CHUNK_SIZE"
  by (simp add: CHUNK_SIZE_def)

lemma trace_call [simp]: "trace (call e w) = trace w @ [e]"
  by (simp add: call_def)

lemma trace_log [simp]: "trace (log l m w) = trace w"
  by (simp add: log_def)

lemma logs_call [simp]: "logs (call e w) = logs w"
  by (simp add: call_def)

lemma logs_log [simp]: "logs (log l m w) = logs w @ [(l, m)]"
  by (simp add: log_def)

lemma lists_call [simp]: "lists (call e w) = lists w"
  by (simp add: call_def)

lemma lists_log [simp]: "lists (log l m w) = lists w"
  by (simp add: log_def)

lemma now_call [simp]: "now (call e w) = Suc (now w)"
  by (simp add: now_def)

lemma now_log [simp]: "now (log l m w) = now w"
  by (simp add: now_def)

lemma upload_session_loop_end:
  "length content \<le> pos \<Longrightarrow>
   upload_session_loop d content dest sid offset pos w = (Inr (), log Info ''100 %'' w)"
  by (subst upload_session_loop.simps) simp

lemma upload_session_loop_finish_raises:
  "pos < length content \<Longrightarrow> length content - pos \<le> CHUNK_SIZE \<Longrightarrow>
   files_upload_session_finish d (now w) (drop pos content) sid offset dest = Inl e \<Longrightarrow>
   upload_session_loop d content dest sid offset pos w
     = (Inl e, call (Session_finish (drop pos content) sid offset dest) w)"
  by (subst upload_session_loop.simps) (simp add: Let_def)

lemma upload_session_loop_finish_returns:
  "pos < length content \<Longrightarrow> length content - pos \<le> CHUNK_SIZE \<Longrightarrow>
   files_upload_session_finish d (now w) (drop pos content) sid offset dest = Inr u \<Longrightarrow>
   upload_session_loop d content dest sid offset pos w
     = (Inr (), log Info ''100 %'' (call (Session_finish (drop pos content) sid offset dest) w))"
  by (subst upload_session_loop.simps) (simp add: Let_def upload_session_loop_end)

lemma upload_session_loop_append_raises:
  "CHUNK_SIZE < length content - pos \<Longrightarrow>
   files_upload_session_append d (now w) (take CHUNK_SIZE (drop pos content)) sid offset
     = Inl e \<Longrightarrow>
   upload_session_loop d content dest sid offset pos w
     = (Inl e, call (Session_append (take CHUNK_SIZE (drop pos content)) sid offset) w)"
  by (subst upload_session_loop.simps) (simp add: Let_def)

lemma upload_session_loop_append_returns:
  "CHUNK_SIZE < length content - pos \<Longrightarrow>
   files_upload_session_append d (now w) (take CHUNK_SIZE (drop pos content)) sid offset
     = Inr u \<Longrightarrow>
   upload_session_loop d content dest sid offset pos w
     = upload_session_loop d content dest sid (pos + CHUNK_SIZE) (pos + CHUNK_SIZE)
         (call (Session_append (take CHUNK_SIZE (drop pos content)) sid offset) w)"
proof -
  assume a: "CHUNK_SIZE < length content - pos"
    and b: "files_upload_session_append d (now w) (take CHUNK_SIZE (drop pos content)) sid offset
              = Inr u"
  from a have "pos < length content" "\<not> length content - pos \<le> CHUNK_SIZE"
    "length (take CHUNK_SIZE (drop pos content)) = CHUNK_SIZE"
    by simp_all
  then show ?thesis
    using b by (subst upload_session_loop.simps) (simp add: Let_def)
qed

lemma upload_session_loop_cases:
  obtains (at_end) "length content \<le> pos"
  | (finish) "pos < length content" "length content - pos \<le> CHUNK_SIZE"
  | (append) "CHUNK_SIZE < length content - pos"
  by linarith

lemma upload_session_loop_trace:
  "pos < length content \<Longrightarrow>
   upload_session_loop d content dest sid offset pos w = (Inr (), w') \<Longrightarrow>
   \<exists>mid fin. trace w' = trace w @ mid @ [fin] \<and>
     (\<forall>e \<in> set mid. is_append e \<and> length (payload e) = CHUNK_SIZE) \<and> is_finish fin \<and>
     concat (map payload (mid @ [fin])) = drop pos content"
proof (induction "length content - pos" arbitrary: pos offset w rule: less_induct)
  case less
  let ?chunk = "take CHUNK_SIZE (drop pos content)"
  show ?case
  proof (cases "length content - pos \<le> CHUNK_SIZE")
    case True
    let ?fin = "Session_finish (drop pos content) sid offset dest"
    from less.prems True have "w' = log Info ''100 %'' (call ?fin w)"
      by (cases "files_upload_session_finish d (now w) (drop pos content) sid offset dest")
         (simp_all add: upload_session_loop_finish_raises upload_session_loop_finish_returns)
    then have "trace w' = trace w @ [] @ [?fin]"
      by simp
    then show ?thesis
      by (intro exI [of _ "[]"] exI [of _ ?fin]) simp
  next
    case False
    then have more: "CHUNK_SIZE < length content - pos" and len: "length ?chunk = CHUNK_SIZE"
      by auto
    let ?app = "Session_append ?chunk sid offset"
    from less.prems more
    have rec: "upload_session_loop d content dest sid (pos + CHUNK_SIZE) (pos + CHUNK_SIZE)
                 (call ?app w) = (Inr (), w')"
      by (cases "files_upload_session_append d (now w) ?chunk sid offset")
         (simp_all add: upload_session_loop_append_raises upload_session_loop_append_returns)
    have "length content - (pos + CHUNK_SIZE) < length content - pos"
      using more CHUNK_SIZE_pos by linarith
    moreover have "pos + CHUNK_SIZE < length content"
      using more by linarith
    ultimately obtain mid fin where
      tr: "trace w' = trace (call ?app w) @ mid @ [fin]" and
      mid: "\<forall>e \<in> set mid. is_append e \<and> length (payload e) = CHUNK_SIZE" and
      fin: "is_finish fin" and
      cc: "concat (map payload (mid @ [fin])) = drop (pos + CHUNK_SIZE) content"
      using less.hyps rec by blast
    let ?mid = "?app # mid"
    have "trace w' = trace w @ ?mid @ [fin]" using tr by simp
    moreover have "\<forall>e \<in> set ?mid. is_append e \<and> length (payload e) = CHUNK_SIZE"
      using mid len by simp
    moreover have "concat (map payload (?mid @ [fin])) = drop pos content"
    proof -
      have "concat (map payload (?mid @ [fin])) = ?chunk @ drop (pos + CHUNK_SIZE) content"
        using cc by simp
      also have "\<dots> = take CHUNK_SIZE (drop pos content) @ drop CHUNK_SIZE (drop pos content)"
        by (simp add: add.commute)
      also have "\<dots> = drop pos content" by (rule append_take_drop_id)
      finally show ?thesis .
    qed
    ultimately show ?thesis using fin by blast
  qed
qed

lemma upload_session_loop_returns:
  "\<forall>t c sid off. \<not> isl (files_upload_session_append d t c sid off) \<Longrightarrow>
   \<forall>t c sid off p. \<not> isl (files_upload_session_finish d t c sid off p) \<Longrightarrow>
   fst (upload_session_loop d content dest sid offset pos w) = Inr ()"
proof (induction "length content - pos" arbitrary: pos offset w rule: less_induct)
  case less
  show ?case
  proof (cases content pos rule: upload_session_loop_cases)
    case at_end
    then show ?thesis by (simp add: upload_session_loop_end)
  next
    case finish
    from less.prems(2) obtain u where
      "files_upload_session_finish d (now w) (drop pos content) sid offset dest = Inr u"
      by (metis isl_def sum.exhaust_sel)
    then show ?thesis using finish by (simp add: upload_session_loop_finish_returns)
  next
    case append
    from less.prems(1) obtain u where
      "files_upload_session_append d (now w) (take CHUNK_SIZE (drop pos content)) sid offset
         = Inr u"
      by (metis isl_def sum.exhaust_sel)
    moreover have "length content - (pos + CHUNK_SIZE) < length content - pos"
      using append CHUNK_SIZE_pos by linarith
    ultimately show ?thesis
      using append less.hyps less.prems by (simp add: upload_session_loop_append_returns)
  qed
qed

lemma upload_session_loop_extends:
  "\<exists>evs. trace (snd (upload_session_loop d content dest sid offset pos w)) = trace w @ evs \<and>
     (\<forall>e \<in> set evs. is_upload_event e) \<and>
     lists (snd (upload_session_loop d content dest sid offset pos w)) = lists w"
proof (induction "length content - pos" arbitrary: pos offset w rule: less_induct)
  case less
  show ?case
  proof (cases content pos rule: upload_session_loop_cases)
    case at_end
    then show ?thesis by (simp add: upload_session_loop_end)
  next
    case finish
    then show ?thesis
      by (cases "files_upload_session_finish d (now w) (drop pos content) sid offset dest")
         (simp_all add: upload_session_loop_finish_raises upload_session_loop_finish_returns)
  next
    case append
    let ?app = "Session_append (take CHUNK_SIZE (drop pos content)) sid offset"
    show ?thesis
    proof (cases "files_upload_session_append d (now w) (take CHUNK_SIZE (drop pos content))
                    sid offset")
      case (Inl e)
      then show ?thesis using append by (simp add: upload_session_loop_append_raises)
    next
      case (Inr u)
      let ?r = "upload_session_loop d content dest sid (pos + CHUNK_SIZE) (pos + CHUNK_SIZE)
                  (call ?app w)"
      have "length content - (pos + CHUNK_SIZE) < length content - pos"
        using append CHUNK_SIZE_pos by linarith
      from less.hyps [OF this] obtain evs where
        "trace (snd ?r) = trace (call ?app w) @ evs" "\<forall>e \<in> set evs. is_upload_event e"
        "lists (snd ?r) = lists (call ?app w)"
        by blast
      then have "trace (snd ?r) = trace w @ (?app # evs) \<and>
          (\<forall>e \<in> set (?app # evs). is_upload_event e) \<and> lists (snd ?r) = lists w"
        by simp
      then show ?thesis
        unfolding upload_session_loop_append_returns [OF append Inr] by blast
    qed
  qed
qed

lemma open_rb_Readable: "files h p = Readable bs \<Longrightarrow> open_rb h p = Inr bs"
  by (simp add: open_rb_def)

lemma getsize_Readable: "files h p = Readable bs \<Longrightarrow> getsize h p = Inr (length bs)"
  by (simp add: getsize_def)

lemma upload_file_body_small:
  "files h p = Readable bs \<Longrightarrow> length bs \<le> CHUNK_SIZE \<Longrightarrow>
   upload_file_body d h p dest w =
     (case files_upload d (now w) bs dest of Inl e \<Rightarrow> Inl e | Inr u \<Rightarrow> Inr (),
      call (Files_upload bs dest) w)"
  by (simp add: upload_file_body_def open_rb_Readable getsize_Readable split: sum.splits)

lemma upload_file_body_large:
  "files h p = Readable bs \<Longrightarrow> CHUNK_SIZE < length bs \<Longrightarrow>
   upload_file_body d h p dest w =
     (case files_upload_session_start d (now w) (take CHUNK_SIZE bs) of
        Inl e \<Rightarrow> (Inl e, call (Session_start (take CHUNK_SIZE bs)) w)
      | Inr sid \<Rightarrow>
          upload_session_loop d bs dest sid CHUNK_SIZE CHUNK_SIZE
            (call (Session_start (take CHUNK_SIZE bs)) w))"
  by (simp add: upload_file_body_def open_rb_Readable getsize_Readable Let_def
           split: sum.splits)

lemma upload_file_body_no_file:
  "open_rb h p = Inl e \<Longrightarrow> upload_file_body d h p dest w = (Inl e, w)"
  by (simp add: upload_file_body_def)

lemma upload_file_body_extends:
  "\<exists>evs. trace (snd (upload_file_body d h p dest w)) = trace w @ evs \<and>
     (\<forall>e \<in> set evs. is_upload_event e) \<and>
     lists (snd (upload_file_body d h p dest w)) = lists w"
proof (cases "files h p")
  case Missing
  then show ?thesis by (simp add: upload_file_body_def open_rb_def)
next
  case (Unreadable n)
  then show ?thesis by (simp add: upload_file_body_def open_rb_def)
next
  case (Readable bs)
  show ?thesis
  proof (cases "length bs \<le> CHUNK_SIZE")
    case True
    then show ?thesis
      by (simp add: upload_file_body_small [OF Readable])
  next
    case False
    then have large: "CHUNK_SIZE < length bs" by simp
    let ?start = "Session_start (take CHUNK_SIZE bs)"
    show ?thesis
    proof (cases "files_upload_session_start d (now w) (take CHUNK_SIZE bs)")
      case (Inl e)
      then show ?thesis by (simp add: upload_file_body_large [OF Readable large])
    next
      case (Inr sid)
      let ?r = "upload_session_loop d bs dest sid CHUNK_SIZE CHUNK_SIZE (call ?start w)"
      from upload_session_loop_extends [of d bs dest sid CHUNK_SIZE CHUNK_SIZE "call ?start w"]
      obtain evs where "trace (snd ?r) = trace (call ?start w) @ evs"
        "\<forall>e \<in> set evs. is_upload_event e" "lists (snd ?r) = lists (call ?start w)"
        by blast
      then have "trace (snd ?r) = trace w @ (?start # evs) \<and>
          (\<forall>e \<in> set (?start # evs). is_upload_event e) \<and> lists (snd ?r) = lists w"
        by simp
      then show ?thesis
        unfolding upload_file_body_large [OF Readable large] Inr by simp
    qed
  qed
qed

lemma upload_file_body_first_call:
  "files h p = Readable bs \<Longrightarrow>
   \<exists>rest. trace (snd (upload_file_body d h p dest w)) = trace w @ first_call bs dest # rest"
proof (cases "length bs \<le> CHUNK_SIZE")
  case True
  assume "files h p = Readable bs"
  then show ?thesis using True
    by (simp add: upload_file_body_small first_call_def)
next
  case False
  assume r: "files h p = Readable bs"
  from False have large: "CHUNK_SIZE < length bs" by simp
  let ?start = "Session_start (take CHUNK_SIZE bs)"
  show ?thesis
  proof (cases "files_upload_session_start d (now w) (take CHUNK_SIZE bs)")
    case (Inl e)
    then show ?thesis using False by (simp add: upload_file_body_large [OF r large] first_call_def)
  next
    case (Inr sid)
    from upload_session_loop_extends [of d bs dest sid CHUNK_SIZE CHUNK_SIZE "call ?start w"]
    obtain evs where
      "trace (snd (upload_session_loop d bs dest sid CHUNK_SIZE CHUNK_SIZE (call ?start w)))
         = trace (call ?start w) @ evs"
      by blast
    then show ?thesis
      using False Inr by (simp add: upload_file_body_large [OF r large] first_call_def)
  qed
qed

lemma upload_file_body_complete:
  assumes r: "files h p = Readable bs"
    and ok: "upload_file_body d h p dest w = (Inr (), w')"
  shows "\<exists>evs. trace w' = trace w @ evs \<and> complete_upload bs dest evs"
proof (cases "length bs \<le> CHUNK_SIZE")
  case True
  from ok have "w' = call (Files_upload bs dest) w"
    by (simp add: upload_file_body_small [OF r True] split: sum.splits)
  then show ?thesis using True by (simp add: complete_upload_def)
next
  case False
  then have large: "CHUNK_SIZE < length bs" by simp
  let ?start = "Session_start (take CHUNK_SIZE bs)"
  from ok obtain sid where
    loop: "upload_session_loop d bs dest sid CHUNK_SIZE CHUNK_SIZE (call ?start w) = (Inr (), w')"
    by (auto simp: upload_file_body_large [OF r large] split: sum.splits)
  from upload_session_loop_trace [OF large loop] obtain mid fin where
    tr: "trace w' = trace (call ?start w) @ mid @ [fin]" and
    mid: "\<forall>e \<in> set mid. is_append e \<and> length (payload e) = CHUNK_SIZE" and
    fin: "is_finish fin" and
    cc: "concat (map payload (mid @ [fin])) = drop CHUNK_SIZE bs"
    by blast
  let ?evs = "?start # mid @ [fin]"
  have "trace w' = trace w @ ?evs" using tr by simp
  moreover have "complete_upload bs dest ?evs"
  proof -
    have "concat (map payload ?evs) = take CHUNK_SIZE bs @ drop CHUNK_SIZE bs"
      using cc by simp
    then have "concat (map payload ?evs) = bs" by (simp only: append_take_drop_id)
    moreover have "list_all is_append (butlast (tl ?evs))"
      using mid by (simp add: list_all_iff)
    ultimately show ?thesis
      using False fin unfolding complete_upload_def by simp
  qed
  ultimately show ?thesis by blast
qed

lemma upload_file_body_returns:
  assumes r: "files h p = Readable bs"
    and "\<forall>t c p. \<not> isl (files_upload d t c p)"
    and "\<forall>t c. \<not> isl (files_upload_session_start d t c)"
    and "\<forall>t c sid off. \<not> isl (files_upload_session_append d t c sid off)"
    and "\<forall>t c sid off p. \<not> isl (files_upload_session_finish d t c sid off p)"
  shows "fst (upload_file_body d h p dest w) = Inr ()"
proof (cases "length bs \<le> CHUNK_SIZE")
  case True
  from assms(2) obtain u where "files_upload d (now w) bs dest = Inr u"
    by (metis isl_def sum.exhaust_sel)
  then show ?thesis by (simp add: upload_file_body_small [OF r True])
next
  case False
  then have large: "CHUNK_SIZE < length bs" by simp
  from assms(3) obtain sid where
    "files_upload_session_start d (now w) (take CHUNK_SIZE bs) = Inr sid"
    by (metis isl_def sum.exhaust_sel)
  then show ?thesis
    using upload_session_loop_returns [OF assms(4,5)]
    by (simp add: upload_file_body_large [OF r large])
qed

lemma attempt_world_0 [simp]: "attempt_world f 0 w = w"
  by (simp add: attempt_world_def)

lemma attempt_world_Suc: "attempt_world f (Suc k) w = attempt_world f k (snd (f w))"
  unfolding attempt_world_def by (simp only: funpow_Suc_right o_apply)

lemma retry_loop_first_returns:
  "f w = (Inr v, w') \<Longrightarrow> retry_loop n f w = (Inr v, w')"
  by (cases n) simp_all

lemma retry_loop_attempts:
  "\<exists>k\<le>n. (\<forall>i<k. isl (fst (f (attempt_world f i w)))) \<and>
      retry_loop n f w = f (attempt_world f k w) \<and>
      (k < n \<longrightarrow> \<not> isl (fst (f (attempt_world f k w))))"
proof (induction n arbitrary: w)
  case 0
  show ?case by simp
next
  case (Suc n)
  obtain r w' where fw: "f w = (r, w')" by (cases "f w")
  show ?case
  proof (cases r)
    case (Inr v)
    with fw have "retry_loop (Suc n) f w = f (attempt_world f 0 w)"
      "\<not> isl (fst (f (attempt_world f 0 w)))"
      by simp_all
    then show ?thesis by (intro exI [of _ 0]) simp
  next
    case (Inl e)
    from Suc.IH [of w'] obtain k where k: "k \<le> n"
      "\<forall>i<k. isl (fst (f (attempt_world f i w')))"
      "retry_loop n f w' = f (attempt_world f k w')"
      "k < n \<longrightarrow> \<not> isl (fst (f (attempt_world f k w')))"
      by blast
    have shift: "\<And>i. attempt_world f (Suc i) w = attempt_world f i w'"
      using fw by (simp add: attempt_world_Suc)
    have "\<forall>i<Suc k. isl (fst (f (attempt_world f i w)))"
    proof (intro allI impI)
      fix i assume "i < Suc k"
      then show "isl (fst (f (attempt_world f i w)))"
        using k(2) shift fw Inl by (cases i) simp_all
    qed
    moreover have "retry_loop (Suc n) f w = f (attempt_world f (Suc k) w)"
      using fw Inl k(3) shift by simp
    moreover have "Suc k < Suc n \<longrightarrow> \<not> isl (fst (f (attempt_world f (Suc k) w)))"
      using k(4) shift by simp
    ultimately show ?thesis using k(1) by (intro exI [of _ "Suc k"]) simp
  qed
qed

lemma retry_loop_extends:
  assumes f: "\<And>w. \<exists>evs. trace (snd (f w)) = trace w @ evs \<and> (\<forall>e \<in> set evs. P e) \<and>
                 lists (snd (f w)) = lists w"
  shows "\<exists>evs. trace (snd (retry_loop n f w)) = trace w @ evs \<and> (\<forall>e \<in> set evs. P e) \<and>
           lists (snd (retry_loop n f w)) = lists w"
proof (induction n arbitrary: w)
  case 0
  show ?case using f [of w] by simp
next
  case (Suc n)
  obtain r w' where fw: "f w = (r, w')" by (cases "f w")
  from f [of w] fw obtain evs where evs: "trace w' = trace w @ evs" "\<forall>e \<in> set evs. P e"
    "lists w' = lists w"
    by auto
  show ?case
  proof (cases r)
    case (Inr v)
    with fw evs show ?thesis by simp
  next
    case (Inl e)
    from Suc.IH [of w'] obtain evs' where
      "trace (snd (retry_loop n f w')) = trace w' @ evs'" "\<forall>e \<in> set evs'. P e"
      "lists (snd (retry_loop n f w')) = lists w'"
      by blast
    with evs have "trace (snd (retry_loop n f w')) = trace w @ (evs @ evs') \<and>
        (\<forall>e \<in> set (evs @ evs'). P e) \<and> lists (snd (retry_loop n f w')) = lists w"
      by auto
    then show ?thesis using fw Inl by simp
  qed
qed

lemma retry_loop_same_call:
  assumes f: "\<And>w. trace (snd (f w)) = trace w @ [ev]"
  shows "\<exists>k. 1 \<le> k \<and> k \<le> Suc n \<and> trace (snd (retry_loop n f w)) = trace w @ replicate k ev"
proof (induction n arbitrary: w)
  case 0
  show ?case using f [of w] by (intro exI [of _ 1]) simp
next
  case (Suc n)
  obtain r w' where fw: "f w = (r, w')" by (cases "f w")
  with f [of w] have w': "trace w' = trace w @ [ev]" by simp
  show ?case
  proof (cases r)
    case (Inr v)
    with fw w' show ?thesis by (intro exI [of _ 1]) simp
  next
    case (Inl e)
    from Suc.IH [of w'] obtain k where "1 \<le> k" "k \<le> Suc n"
      "trace (snd (retry_loop n f w')) = trace w' @ replicate k ev"
      by blast
    then show ?thesis
      using fw Inl w' by (intro exI [of _ "Suc k"]) simp
  qed
qed

lemma upload_file_extends:
  "\<exists>evs. trace (snd (upload_file d h p dest w)) = trace w @ evs \<and>
     (\<forall>e \<in> set evs. is_upload_event e) \<and>
     lists (snd (upload_file d h p dest w)) = lists w"
  unfolding upload_file_def retry_def
  by (rule retry_loop_extends) (rule upload_file_body_extends)

lemma upload_file_first_returns:
  "upload_file_body d h p dest w = (Inr (), w') \<Longrightarrow> upload_file d h p dest w = (Inr (), w')"
  by (simp add: upload_file_def retry_def retry_loop_first_returns)

lemma retry_loop_same_call_returns:
  assumes f: "\<And>w. trace (snd (f w)) = trace w @ [ev]"
  shows "\<exists>k. 1 \<le> k \<and> k \<le> Suc n \<and>
           trace (snd (retry_loop n f w)) = trace w @ replicate k ev \<and>
           (k < Suc n \<longrightarrow> \<not> isl (fst (retry_loop n f w)))"
proof (induction n arbitrary: w)
  case 0
  show ?case using f [of w] by (intro exI [of _ 1]) simp
next
  case (Suc n)
  obtain r w' where fw: "f w = (r, w')" by (cases "f w")
  with f [of w] have w': "trace w' = trace w @ [ev]" by simp
  show ?case
  proof (cases r)
    case (Inr v)
    with fw w' show ?thesis by (intro exI [of _ 1]) simp
  next
    case (Inl e)
    from Suc.IH [of w'] obtain k where "1 \<le> k" "k \<le> Suc n"
      "trace (snd (retry_loop n f w')) = trace w' @ replicate k ev"
      "k < Suc n \<longrightarrow> \<not> isl (fst (retry_loop n f w'))"
      by blast
    then show ?thesis
      using fw Inl w' by (intro exI [of _ "Suc k"]) simp
  qed
qed

lemma attempt_world_extends:
  assumes f: "\<And>w. \<exists>evs. trace (snd (f w)) = trace w @ evs \<and> (\<forall>e \<in> set evs. P e) \<and>
                 lists (snd (f w)) = lists w"
  shows "\<exists>evs. trace (attempt_world f k w) = trace w @ evs \<and> (\<forall>e \<in> set evs. P e)"
proof (induction k arbitrary: w)
  case 0
  show ?case by simp
next
  case (Suc k)
  from f [of w] obtain evs where
    evs: "trace (snd (f w)) = trace w @ evs" "\<forall>e \<in> set evs. P e"
    by blast
  from Suc.IH [of "snd (f w)"] obtain evs' where
    "trace (attempt_world f k (snd (f w))) = trace (snd (f w)) @ evs'" "\<forall>e \<in> set evs'. P e"
    by blast
  with evs have "trace (attempt_world f (Suc k) w) = trace w @ (evs @ evs') \<and>
      (\<forall>e \<in> set (evs @ evs'). P e)"
    by (auto simp: attempt_world_Suc)
  then show ?case by blast
qed

text \<open>
  An attempt on a file of more than one chunk that returns: a start, appends only, a
  finish, carrying the bytes of the file.
\<close>

lemma upload_file_body_session:
  assumes "files h p = Readable bs" and "CHUNK_SIZE < length bs"
    and ok: "upload_file_body d h p dest w = (Inr (), w')"
  shows "\<exists>mid fin. trace w' = trace w @ Session_start (take CHUNK_SIZE bs) # mid @ [fin] \<and>
          (\<forall>e \<in> set mid. is_append e) \<and> is_finish fin \<and>
          sum_list (map (\<lambda>e. length (payload e)) (Session_start (take CHUNK_SIZE bs) # mid @ [fin]))
            = length bs \<and>
          concat (map payload (Session_start (take CHUNK_SIZE bs) # mid @ [fin])) = bs"
proof -
  let ?start = "Session_start (take CHUNK_SIZE bs)"
  from ok obtain sid where
    loop: "upload_session_loop d bs dest sid CHUNK_SIZE CHUNK_SIZE (call ?start w) = (Inr (), w')"
    by (auto simp: upload_file_body_large [OF assms(1,2)] split: sum.splits)
  from upload_session_loop_trace [OF assms(2) loop] obtain mid fin where
    tr: "trace w' = trace (call ?start w) @ mid @ [fin]" and
    mid: "\<forall>e \<in> set mid. is_append e \<and> length (payload e) = CHUNK_SIZE" and
    fin: "is_finish fin" and
    cc: "concat (map payload (mid @ [fin])) = drop CHUNK_SIZE bs"
    by blast
  let ?evs = "?start # mid @ [fin]"
  have "concat (map payload ?evs) = take CHUNK_SIZE bs @ drop CHUNK_SIZE bs"
    using cc by simp
  then have all: "concat (map payload ?evs) = bs" by (simp only: append_take_drop_id)
  have "sum_list (map (\<lambda>e. length (payload e)) ?evs) = length (concat (map payload ?evs))"
    by (simp only: length_concat map_map o_def)
  then have "sum_list (map (\<lambda>e. length (payload e)) ?evs) = length bs"
    by (simp only: all)
  moreover have "trace w' = trace w @ ?evs" using tr by simp
  ultimately show ?thesis using mid fin all by blast
qed

section \<open>Claims about the upload\<close>

text \<open>
  Claim C5, as stated, fails for \<^verbatim>\<open>upload_file\<close> as its callers see it, under the retry:
  when the single-shot call of the first attempt raises, the call is made again, and the
  function returns normally after two single-shot calls for one small file.
\<close>

theorem upload_file_small_repeats_counterexample:
  "fst (upload_file (dbx_after 1 (Inl (RemoteError ''not_found'')))
          (host_with (Readable [1, 2, 3])) ''/backup/a.tar'' ''/d/a.tar'' world0) = Inr () \<and>
   trace (snd (upload_file (dbx_after 1 (Inl (RemoteError ''not_found'')))
                 (host_with (Readable [1, 2, 3])) ''/backup/a.tar'' ''/d/a.tar'' world0))
     = [Files_upload [1, 2, 3] ''/d/a.tar'', Files_upload [1, 2, 3] ''/d/a.tar'']"
proof -
  have body: "upload_file_body (dbx_after n (Inl (RemoteError ''not_found'')))
      (host_with (Readable [1, 2, 3])) ''/backup/a.tar'' ''/d/a.tar''
    = (\<lambda>w. (if now w < n then Inl (RemoteError ''timeout'') else Inr (),
             call (Files_upload [1, 2, 3] ''/d/a.tar'') w))" for n
    by (rule ext)
       (simp add: upload_file_body_def open_rb_def getsize_def host_with_def dbx_after_def
          CHUNK_SIZE_def)
  have run: "upload_file (dbx_after n (Inl (RemoteError ''not_found'')))
      (host_with (Readable [1, 2, 3])) ''/backup/a.tar'' ''/d/a.tar'' world0
    = retry_loop 3 (\<lambda>w. (if now w < n then Inl (RemoteError ''timeout'') else Inr (),
                        call (Files_upload [1, 2, 3] ''/d/a.tar'') w)) world0" for n
    by (simp add: upload_file_def retry_def body)
  show ?thesis
    unfolding run by (simp add: numeral_3_eq_3 now_def call_def world0_def)
qed

text \<open>
  Claim C5, amended. A readable file of at most \<^verbatim>\<open>CHUNK_SIZE\<close> bytes: each attempt of
  \<^verbatim>\<open>upload_file\<close> makes exactly one call, the single-shot upload carrying the whole
  content to the destination, and no session call, whether that call raises or not. When
  the call of the first attempt returns, the retried function returns after this one
  call. In general the retried function makes this same single-shot call once per attempt
  and nothing else: between one and four calls, and fewer than four only when it returns
  normally.
\<close>

theorem upload_file_small_single_call:
  assumes "files h p = Readable bs" and "length bs \<le> CHUNK_SIZE"
  shows "trace (snd (upload_file_body d h p dest w)) = trace w @ [Files_upload bs dest] \<and>
    (\<not> isl (files_upload d (now w) bs dest) \<longrightarrow>
       upload_file d h p dest w = (Inr (), call (Files_upload bs dest) w)) \<and>
    (\<exists>k. 1 \<le> k \<and> k \<le> 4 \<and>
       trace (snd (upload_file d h p dest w)) = trace w @ replicate k (Files_upload bs dest) \<and>
       (k < 4 \<longrightarrow> fst (upload_file d h p dest w) = Inr ()))"
proof (intro conjI impI)
  show one: "trace (snd (upload_file_body d h p dest w)) = trace w @ [Files_upload bs dest]"
    for w
    by (simp add: upload_file_body_small [OF assms])
  show "upload_file d h p dest w = (Inr (), call (Files_upload bs dest) w)"
    if "\<not> isl (files_upload d (now w) bs dest)"
  proof -
    from that obtain u where "files_upload d (now w) bs dest = Inr u"
      by (metis isl_def sum.exhaust_sel)
    then have "upload_file_body d h p dest w = (Inr (), call (Files_upload bs dest) w)"
      by (simp add: upload_file_body_small [OF assms])
    then show ?thesis by (rule upload_file_first_returns)
  qed
  have uf: "upload_file d h p dest w = retry_loop 3 (upload_file_body d h p dest) w"
    by (simp add: upload_file_def retry_def)
  from retry_loop_same_call_returns
    [of "upload_file_body d h p dest" "Files_upload bs dest" 3 w, OF one]
  obtain k where k: "1 \<le> k" "k \<le> Suc 3"
    "trace (snd (upload_file d h p dest w)) = trace w @ replicate k (Files_upload bs dest)"
    "k < Suc 3 \<longrightarrow> \<not> isl (fst (upload_file d h p dest w))"
    unfolding uf by blast
  have "fst (upload_file d h p dest w) = Inr ()" if "k < 4"
    using k(4) that by (cases "fst (upload_file d h p dest w)") simp_all
  with k(1,2,3) show "\<exists>k. 1 \<le> k \<and> k \<le> 4 \<and>
       trace (snd (upload_file d h p dest w)) = trace w @ replicate k (Files_upload bs dest) \<and>
       (k < 4 \<longrightarrow> fst (upload_file d h p dest w) = Inr ())"
    by (intro exI [of _ k]) simp
qed

theorem upload_file_small_single_call_witness:
  "files (host_with (Readable [1, 2, 3])) ''/backup/a.tar'' = Readable [1, 2, 3] \<and>
   length [1, 2, 3 :: byte] \<le> CHUNK_SIZE \<and>
   trace (snd (upload_file_body (dbx_after 0 (Inl (RemoteError ''not_found'')))
                 (host_with (Readable [1, 2, 3])) ''/backup/a.tar'' ''/d/a.tar'' world0))
     = [Files_upload [1, 2, 3] ''/d/a.tar''] \<and>
   upload_file (dbx_after 0 (Inl (RemoteError ''not_found'')))
     (host_with (Readable [1, 2, 3])) ''/backup/a.tar'' ''/d/a.tar'' world0
     = (Inr (), call (Files_upload [1, 2, 3] ''/d/a.tar'') world0)"
proof -
  have f: "files (host_with (Readable [1, 2, 3])) ''/backup/a.tar'' = Readable [1, 2, 3]"
    by (simp add: host_with_def)
  have l: "length [1, 2, 3 :: byte] \<le> CHUNK_SIZE"
    by (simp add: CHUNK_SIZE_def)
  have r: "\<not> isl (files_upload (dbx_after 0 (Inl (RemoteError ''not_found''))) (now world0)
                   [1, 2, 3] ''/d/a.tar'')"
    by (simp add: dbx_after_def)
  show ?thesis
    using upload_file_small_single_call
      [OF f l, of "dbx_after 0 (Inl (RemoteError ''not_found''))" "''/d/a.tar''" world0] f l r
    by (simp add: world0_def)
qed

text \<open>
  Claim C2, as stated, fails for \<^verbatim>\<open>upload_file\<close> as its callers see it, under the retry.
  A file of ten MiB, with the second remote call raising: the first attempt starts a
  session and its append raises; the second attempt starts a new session from byte 0,
  appends and finishes, and the function returns normally. It made two session starts,
  and the bytes sent add up to eighteen MiB, not to the ten MiB of the file.
\<close>

theorem upload_file_large_repeats_counterexample:
  "fst (upload_file (dbx_fails_at 1 (Inl (RemoteError ''not_found'')))
          (host_with (Readable (replicate 10485760 0))) ''/backup/a.tar'' ''/d/a.tar'' world0)
     = Inr () \<and>
   trace (snd (upload_file (dbx_fails_at 1 (Inl (RemoteError ''not_found'')))
                 (host_with (Readable (replicate 10485760 0))) ''/backup/a.tar'' ''/d/a.tar''
                 world0))
     = [Session_start (replicate 4194304 0),
        Session_append (replicate 4194304 0) ''session'' 4194304,
        Session_start (replicate 4194304 0),
        Session_append (replicate 4194304 0) ''session'' 4194304,
        Session_finish (replicate 2097152 0) ''session'' 8388608 ''/d/a.tar''] \<and>
   length (concat (map payload
     (trace (snd (upload_file (dbx_fails_at 1 (Inl (RemoteError ''not_found'')))
                    (host_with (Readable (replicate 10485760 0))) ''/backup/a.tar''
                    ''/d/a.tar'' world0)))))
     = 18874368"
proof -
  let ?bs = "replicate 10485760 (0 :: byte)"
  let ?c = "replicate 4194304 (0 :: byte)"
  let ?d = "dbx_fails_at 1 (Inl (RemoteError ''not_found''))"
  let ?h = "host_with (Readable ?bs)"
  let ?body = "upload_file_body ?d ?h ''/backup/a.tar'' ''/d/a.tar''"
  let ?w1 = "call (Session_start ?c) world0"
  let ?w2 = "call (Session_append ?c ''session'' 4194304) ?w1"
  let ?w3 = "call (Session_start ?c) ?w2"
  let ?w4 = "call (Session_append ?c ''session'' 4194304) ?w3"
  let ?w5 = "log Info ''100 %''
               (call (Session_finish (replicate 2097152 0) ''session'' 8388608 ''/d/a.tar'') ?w4)"
  have f: "files ?h ''/backup/a.tar'' = Readable ?bs" by (simp add: host_with_def)
  have l: "CHUNK_SIZE < length ?bs" by (simp add: CHUNK_SIZE_def)
  have t0: "now world0 = 0" by (simp add: now_def world0_def)
  have start: "?body w = upload_session_loop ?d ?bs ''/d/a.tar'' ''session'' CHUNK_SIZE CHUNK_SIZE
      (call (Session_start ?c) w)" if "now w \<noteq> 1" for w
    using that
    by (subst upload_file_body_large [OF f l]) (simp add: CHUNK_SIZE_def dbx_fails_at_def)
  have a1: "?body world0 = (Inl (RemoteError ''timeout''), ?w2)"
  proof -
    have "?body world0
        = upload_session_loop ?d ?bs ''/d/a.tar'' ''session'' CHUNK_SIZE CHUNK_SIZE ?w1"
      by (rule start) (simp add: t0)
    also have "\<dots> = (Inl (RemoteError ''timeout''), ?w2)"
      by (subst upload_session_loop_append_raises [where e = "RemoteError ''timeout''"])
         (simp_all add: CHUNK_SIZE_def dbx_fails_at_def t0)
    finally show ?thesis .
  qed
  have a2: "?body ?w2 = (Inr (), ?w5)"
  proof -
    have "?body ?w2 = upload_session_loop ?d ?bs ''/d/a.tar'' ''session'' CHUNK_SIZE CHUNK_SIZE ?w3"
      by (rule start) (simp add: t0)
    also have "\<dots> = upload_session_loop ?d ?bs ''/d/a.tar'' ''session''
        (CHUNK_SIZE + CHUNK_SIZE) (CHUNK_SIZE + CHUNK_SIZE) ?w4"
      by (subst upload_session_loop_append_returns [where u = "()"])
         (simp_all add: CHUNK_SIZE_def dbx_fails_at_def t0)
    also have "\<dots> = (Inr (), ?w5)"
      by (subst upload_session_loop_finish_returns [where u = "()"])
         (simp_all add: CHUNK_SIZE_def dbx_fails_at_def t0)
    finally show ?thesis .
  qed
  have "upload_file ?d ?h ''/backup/a.tar'' ''/d/a.tar'' world0
      = retry_loop (Suc (Suc (Suc 0))) ?body world0"
    by (simp add: upload_file_def retry_def numeral_3_eq_3)
  also have "\<dots> = (Inr (), ?w5)"
    by (simp only: retry_loop.simps a1 a2 prod.case sum.case)
  finally have run: "upload_file ?d ?h ''/backup/a.tar'' ''/d/a.tar'' world0 = (Inr (), ?w5)" .
  show ?thesis
    unfolding run by (simp add: world0_def)
qed

text \<open>
  Claim C2, amended. A readable file of more than \<^verbatim>\<open>CHUNK_SIZE\<close> bytes. When no session
  call raises, the first attempt returns. Whenever an attempt returns, the calls of that
  attempt are one session start with the first chunk, then append calls only, then one
  finish call as the last call, the bytes carried add up to the size of the file, and
  joined in order they are the file; the retried function returns after a first attempt
  that returns, and then these are all its calls. Whenever the retried function returns
  normally, its calls are the upload calls of the attempts that raised, followed by such a
  sequence of start, appends and finish for the whole file, so its last call is a finish.
\<close>

theorem upload_file_large_session:
  assumes "files h p = Readable bs" and "CHUNK_SIZE < length bs"
  shows "(sessions_return d \<longrightarrow> fst (upload_file_body d h p dest w) = Inr ()) \<and>
    (\<forall>w'. upload_file_body d h p dest w = (Inr (), w') \<longrightarrow>
       upload_file d h p dest w = (Inr (), w') \<and>
       (\<exists>mid fin. trace w' = trace w @ Session_start (take CHUNK_SIZE bs) # mid @ [fin] \<and>
          (\<forall>e \<in> set mid. is_append e) \<and> is_finish fin \<and>
          sum_list (map (\<lambda>e. length (payload e)) (Session_start (take CHUNK_SIZE bs) # mid @ [fin]))
            = length bs \<and>
          concat (map payload (Session_start (take CHUNK_SIZE bs) # mid @ [fin])) = bs)) \<and>
    (\<forall>w'. upload_file d h p dest w = (Inr (), w') \<longrightarrow>
       (\<exists>failed mid fin.
          trace w' = trace w @ failed @ Session_start (take CHUNK_SIZE bs) # mid @ [fin] \<and>
          (\<forall>e \<in> set failed. is_upload_event e) \<and>
          (\<forall>e \<in> set mid. is_append e) \<and> is_finish fin \<and>
          sum_list (map (\<lambda>e. length (payload e)) (Session_start (take CHUNK_SIZE bs) # mid @ [fin]))
            = length bs \<and>
          concat (map payload (Session_start (take CHUNK_SIZE bs) # mid @ [fin])) = bs))"
proof (intro conjI impI allI)
  let ?start = "Session_start (take CHUNK_SIZE bs)"
  let ?body = "upload_file_body d h p dest"
  show "fst (?body w) = Inr ()" if "sessions_return d"
  proof -
    from that obtain sid where
      "files_upload_session_start d (now w) (take CHUNK_SIZE bs) = Inr sid"
      unfolding sessions_return_def by (metis isl_def sum.exhaust_sel)
    moreover have "fst (upload_session_loop d bs dest sid CHUNK_SIZE CHUNK_SIZE (call ?start w))
        = Inr ()"
      using that unfolding sessions_return_def by (intro upload_session_loop_returns) blast+
    ultimately show ?thesis by (simp add: upload_file_body_large [OF assms])
  qed
  show "upload_file d h p dest w = (Inr (), w')" if "?body w = (Inr (), w')" for w'
    using that by (rule upload_file_first_returns)
  show "\<exists>mid fin. trace w' = trace w @ ?start # mid @ [fin] \<and>
          (\<forall>e \<in> set mid. is_append e) \<and> is_finish fin \<and>
          sum_list (map (\<lambda>e. length (payload e)) (?start # mid @ [fin])) = length bs \<and>
          concat (map payload (?start # mid @ [fin])) = bs"
    if "?body w = (Inr (), w')" for w'
    using upload_file_body_session [OF assms that] .
  show "\<exists>failed mid fin. trace w' = trace w @ failed @ ?start # mid @ [fin] \<and>
          (\<forall>e \<in> set failed. is_upload_event e) \<and>
          (\<forall>e \<in> set mid. is_append e) \<and> is_finish fin \<and>
          sum_list (map (\<lambda>e. length (payload e)) (?start # mid @ [fin])) = length bs \<and>
          concat (map payload (?start # mid @ [fin])) = bs"
    if ret: "upload_file d h p dest w = (Inr (), w')" for w'
  proof -
    from retry_loop_attempts [of 3 ?body w] obtain k where
      "retry_loop 3 ?body w = ?body (attempt_world ?body k w)"
      by blast
    with ret have att: "?body (attempt_world ?body k w) = (Inr (), w')"
      by (simp add: upload_file_def retry_def)
    from attempt_world_extends [of ?body is_upload_event k w, OF upload_file_body_extends]
    obtain failed where failed: "trace (attempt_world ?body k w) = trace w @ failed"
      "\<forall>e \<in> set failed. is_upload_event e"
      by blast
    from upload_file_body_session [OF assms att] obtain mid fin where
      "trace w' = trace (attempt_world ?body k w) @ ?start # mid @ [fin]"
      "\<forall>e \<in> set mid. is_append e" "is_finish fin"
      "sum_list (map (\<lambda>e. length (payload e)) (?start # mid @ [fin])) = length bs"
      "concat (map payload (?start # mid @ [fin])) = bs"
      by blast
    with failed show ?thesis by (intro exI [of _ failed] exI [of _ mid] exI [of _ fin]) simp
  qed
qed

text \<open>
  The scenario of the spec: ten MiB go as a start of four MiB, an append of four MiB at
  offset four MiB and a finish of two MiB at offset eight MiB.
\<close>

lemma ten_mib_upload:
  "upload_file_body (dbx_after 0 m) (host_with (Readable (replicate 10485760 0)))
     ''/backup/a.tar'' ''/d/a.tar'' world0
   = (Inr (),
      \<lparr>trace = [Session_start (replicate 4194304 0),
                Session_append (replicate 4194304 0) ''session'' 4194304,
                Session_finish (replicate 2097152 0) ''session'' 8388608 ''/d/a.tar''],
       logs = [(Info, ''100 %'')], lists = (\<lambda>r. [])\<rparr>)"
proof -
  let ?bs = "replicate 10485760 (0 :: byte)"
  let ?d = "dbx_after 0 m"
  let ?w1 = "call (Session_start (replicate 4194304 0)) world0"
  let ?w2 = "call (Session_append (replicate 4194304 0) ''session'' 4194304) ?w1"
  have body: "upload_file_body ?d (host_with (Readable ?bs)) ''/backup/a.tar'' ''/d/a.tar'' world0
      = upload_session_loop ?d ?bs ''/d/a.tar'' ''session'' CHUNK_SIZE CHUNK_SIZE ?w1"
    by (subst upload_file_body_large [where bs = ?bs])
       (simp_all add: host_with_def CHUNK_SIZE_def dbx_after_def)
  have step1: "upload_session_loop ?d ?bs ''/d/a.tar'' ''session'' CHUNK_SIZE CHUNK_SIZE ?w1
      = upload_session_loop ?d ?bs ''/d/a.tar'' ''session'' (CHUNK_SIZE + CHUNK_SIZE)
          (CHUNK_SIZE + CHUNK_SIZE) ?w2"
    by (subst upload_session_loop_append_returns [where u = "()"])
       (simp_all add: CHUNK_SIZE_def dbx_after_def)
  have step2: "upload_session_loop ?d ?bs ''/d/a.tar'' ''session'' (CHUNK_SIZE + CHUNK_SIZE)
          (CHUNK_SIZE + CHUNK_SIZE) ?w2
      = (Inr (), log Info ''100 %''
          (call (Session_finish (replicate 2097152 0) ''session'' 8388608 ''/d/a.tar'') ?w2))"
    by (subst upload_session_loop_finish_returns [where u = "()"])
       (simp_all add: CHUNK_SIZE_def dbx_after_def)
  show ?thesis
    unfolding body step1 step2 by (simp add: call_def log_def world0_def)
qed

theorem upload_file_large_session_witness:
  "files (host_with (Readable (replicate 10485760 0))) ''/backup/a.tar''
     = Readable (replicate 10485760 0) \<and>
   CHUNK_SIZE < length (replicate 10485760 (0 :: byte)) \<and>
   sessions_return (dbx_after 0 (Inl (RemoteError ''not_found''))) \<and>
   (\<exists>mid fin.
      trace (snd (upload_file_body (dbx_after 0 (Inl (RemoteError ''not_found'')))
                    (host_with (Readable (replicate 10485760 0)))
                    ''/backup/a.tar'' ''/d/a.tar'' world0))
        = Session_start (replicate 4194304 0) # mid @ [fin] \<and>
      list_all is_append mid \<and> is_finish fin \<and>
      sum_list (map (\<lambda>e. length (payload e)) (Session_start (replicate 4194304 0) # mid @ [fin]))
        = 10485760)"
proof -
  let ?bs = "replicate 10485760 (0 :: byte)"
  let ?d = "dbx_after 0 (Inl (RemoteError ''not_found''))"
  let ?h = "host_with (Readable ?bs)"
  have f: "files ?h ''/backup/a.tar'' = Readable ?bs"
    by (simp add: host_with_def)
  have l: "CHUNK_SIZE < length ?bs"
    by (simp add: CHUNK_SIZE_def)
  have s: "sessions_return ?d"
    by (simp add: sessions_return_def dbx_after_def)
  note inst = upload_file_large_session [OF f l, of ?d "''/d/a.tar''" world0]
  from inst s have "fst (upload_file_body ?d ?h ''/backup/a.tar'' ''/d/a.tar'' world0) = Inr ()"
    by blast
  then obtain w' where
    w': "upload_file_body ?d ?h ''/backup/a.tar'' ''/d/a.tar'' world0 = (Inr (), w')"
    by (cases "upload_file_body ?d ?h ''/backup/a.tar'' ''/d/a.tar'' world0") simp
  with inst obtain mid fin where
    "trace w' = trace world0 @ Session_start (take CHUNK_SIZE ?bs) # mid @ [fin]"
    "\<forall>e \<in> set mid. is_append e" "is_finish fin"
    "sum_list (map (\<lambda>e. length (payload e)) (Session_start (take CHUNK_SIZE ?bs) # mid @ [fin]))
       = length ?bs"
    by blast
  then have "trace (snd (upload_file_body ?d ?h ''/backup/a.tar'' ''/d/a.tar'' world0))
        = Session_start (replicate 4194304 0) # mid @ [fin] \<and>
      list_all is_append mid \<and> is_finish fin \<and>
      sum_list (map (\<lambda>e. length (payload e)) (Session_start (replicate 4194304 0) # mid @ [fin]))
        = 10485760"
    using w' by (simp add: world0_def CHUNK_SIZE_def list_all_iff)
  then show ?thesis using f l s by blast
qed

text \<open>
  Claim C7. \<^verbatim>\<open>upload_file\<close> is the body under the retry of four attempts: some attempt
  \<open>k + 1\<close> with \<open>k < 4\<close> gives the result, every attempt before it raised, and when
  \<open>k + 1\<close> is not the fourth attempt it returned; so after four failed attempts the
  error of the fourth is the result. Whatever state an attempt starts in, it opens the
  file again and its first call carries the first bytes of the file: the single-shot
  upload of the whole content, or a new session start with the first chunk.
\<close>

theorem upload_file_retry:
  "(\<exists>k<4. (\<forall>i<k. isl (fst (upload_file_body d h p dest
                             (attempt_world (upload_file_body d h p dest) i w)))) \<and>
      upload_file d h p dest w
        = upload_file_body d h p dest (attempt_world (upload_file_body d h p dest) k w) \<and>
      (k < 3 \<longrightarrow> \<not> isl (fst (upload_file d h p dest w)))) \<and>
   (\<forall>bs v. files h p = Readable bs \<longrightarrow>
      (\<exists>rest. trace (snd (upload_file_body d h p dest v)) = trace v @ first_call bs dest # rest))"
proof (intro conjI allI impI)
  from retry_loop_attempts [of 3 "upload_file_body d h p dest" w]
  obtain k where "k \<le> 3"
    "\<forall>i<k. isl (fst (upload_file_body d h p dest
                      (attempt_world (upload_file_body d h p dest) i w)))"
    "retry_loop 3 (upload_file_body d h p dest) w
       = upload_file_body d h p dest (attempt_world (upload_file_body d h p dest) k w)"
    "k < 3 \<longrightarrow> \<not> isl (fst (upload_file_body d h p dest
                               (attempt_world (upload_file_body d h p dest) k w)))"
    by blast
  then show "\<exists>k<4. (\<forall>i<k. isl (fst (upload_file_body d h p dest
                             (attempt_world (upload_file_body d h p dest) i w)))) \<and>
      upload_file d h p dest w
        = upload_file_body d h p dest (attempt_world (upload_file_body d h p dest) k w) \<and>
      (k < 3 \<longrightarrow> \<not> isl (fst (upload_file d h p dest w)))"
    by (intro exI [of _ k]) (simp add: upload_file_def retry_def)
next
  fix bs v assume "files h p = Readable bs"
  then show "\<exists>rest. trace (snd (upload_file_body d h p dest v)) = trace v @ first_call bs dest # rest"
    by (rule upload_file_body_first_call)
qed

theorem upload_file_retry_witness:
  "(\<exists>k<4. upload_file (dbx_after 2 (Inl (RemoteError ''not_found'')))
             (host_with (Readable [1, 2, 3])) ''/backup/a.tar'' ''/d/a.tar'' world0
           = upload_file_body (dbx_after 2 (Inl (RemoteError ''not_found'')))
               (host_with (Readable [1, 2, 3])) ''/backup/a.tar'' ''/d/a.tar''
               (attempt_world (upload_file_body (dbx_after 2 (Inl (RemoteError ''not_found'')))
                  (host_with (Readable [1, 2, 3])) ''/backup/a.tar'' ''/d/a.tar'') k world0)) \<and>
   upload_file (dbx_after 2 (Inl (RemoteError ''not_found'')))
     (host_with (Readable [1, 2, 3])) ''/backup/a.tar'' ''/d/a.tar'' world0
   = (Inr (), \<lparr>trace = [Files_upload [1, 2, 3] ''/d/a.tar'', Files_upload [1, 2, 3] ''/d/a.tar'',
                        Files_upload [1, 2, 3] ''/d/a.tar''],
               logs = [], lists = (\<lambda>r. [])\<rparr>) \<and>
   upload_file (dbx_after 9 (Inl (RemoteError ''not_found'')))
     (host_with (Readable [1, 2, 3])) ''/backup/a.tar'' ''/d/a.tar'' world0
   = (Inl (RemoteError ''timeout''),
      \<lparr>trace = [Files_upload [1, 2, 3] ''/d/a.tar'', Files_upload [1, 2, 3] ''/d/a.tar'',
                Files_upload [1, 2, 3] ''/d/a.tar'', Files_upload [1, 2, 3] ''/d/a.tar''],
       logs = [], lists = (\<lambda>r. [])\<rparr>)"
proof -
  have body: "upload_file_body (dbx_after n (Inl (RemoteError ''not_found'')))
      (host_with (Readable [1, 2, 3])) ''/backup/a.tar'' ''/d/a.tar''
    = (\<lambda>w. (if now w < n then Inl (RemoteError ''timeout'') else Inr (),
             call (Files_upload [1, 2, 3] ''/d/a.tar'') w))" for n
    by (rule ext)
       (simp add: upload_file_body_def open_rb_def getsize_def host_with_def dbx_after_def
          CHUNK_SIZE_def)
  have run: "upload_file (dbx_after n (Inl (RemoteError ''not_found'')))
      (host_with (Readable [1, 2, 3])) ''/backup/a.tar'' ''/d/a.tar'' world0
    = retry_loop 3 (\<lambda>w. (if now w < n then Inl (RemoteError ''timeout'') else Inr (),
                        call (Files_upload [1, 2, 3] ''/d/a.tar'') w)) world0" for n
    by (simp add: upload_file_def retry_def body)
  have a: "upload_file (dbx_after 2 (Inl (RemoteError ''not_found'')))
     (host_with (Readable [1, 2, 3])) ''/backup/a.tar'' ''/d/a.tar'' world0
   = (Inr (), \<lparr>trace = [Files_upload [1, 2, 3] ''/d/a.tar'', Files_upload [1, 2, 3] ''/d/a.tar'',
                        Files_upload [1, 2, 3] ''/d/a.tar''],
               logs = [], lists = (\<lambda>r. [])\<rparr>)"
    unfolding run by (simp add: numeral_3_eq_3 now_def call_def world0_def)
  have b: "upload_file (dbx_after 9 (Inl (RemoteError ''not_found'')))
     (host_with (Readable [1, 2, 3])) ''/backup/a.tar'' ''/d/a.tar'' world0
   = (Inl (RemoteError ''timeout''),
      \<lparr>trace = [Files_upload [1, 2, 3] ''/d/a.tar'', Files_upload [1, 2, 3] ''/d/a.tar'',
                Files_upload [1, 2, 3] ''/d/a.tar'', Files_upload [1, 2, 3] ''/d/a.tar''],
       logs = [], lists = (\<lambda>r. [])\<rparr>)"
    unfolding run by (simp add: numeral_3_eq_3 now_def call_def world0_def)
  from upload_file_retry [of "dbx_after 2 (Inl (RemoteError ''not_found''))"
      "host_with (Readable [1, 2, 3])" "''/backup/a.tar''" "''/d/a.tar''" world0]
  have "\<exists>k<4. upload_file (dbx_after 2 (Inl (RemoteError ''not_found'')))
             (host_with (Readable [1, 2, 3])) ''/backup/a.tar'' ''/d/a.tar'' world0
           = upload_file_body (dbx_after 2 (Inl (RemoteError ''not_found'')))
               (host_with (Readable [1, 2, 3])) ''/backup/a.tar'' ''/d/a.tar''
               (attempt_world (upload_file_body (dbx_after 2 (Inl (RemoteError ''not_found'')))
                  (host_with (Readable [1, 2, 3])) ''/backup/a.tar'' ''/d/a.tar'') k world0)"
    by blast
  then show ?thesis using a b by blast
qed

section \<open>Facts about the per-snapshot decision\<close>

lemma calls_since_append: "trace w' = trace w @ evs \<Longrightarrow> calls_since w w' = evs"
  by (simp add: calls_since_def)

lemma block_hashes_empty: "block_hashes sha [] = []"
  by (subst block_hashes.simps) simp

lemma block_hashes_one_block:
  "bs \<noteq> [] \<Longrightarrow> length bs \<le> CHUNK_SIZE \<Longrightarrow> block_hashes sha bs = sha bs"
  by (subst block_hashes.simps) (simp add: Let_def block_hashes_empty CHUNK_SIZE_pos)

lemma compute_dropbox_hash_Readable:
  "files h p = Readable bs \<Longrightarrow>
   compute_dropbox_hash h p = Inr (hexdigest (sha256 h (block_hashes (sha256 h) bs)))"
  by (simp add: compute_dropbox_hash_def open_rb_def)

lemma compute_dropbox_hash_Unreadable:
  "files h p = Unreadable n \<Longrightarrow> compute_dropbox_hash h p = Inl PermissionError"
  by (simp add: compute_dropbox_hash_def open_rb_def)

lemma file_exists_absent:
  "files_get_metadata d (now w) dest = Inl e \<Longrightarrow>
   file_exists d h fp dest w =
     (Inr False, log Info ''No existing snapshot in dropox with this name''
                   (call (Files_get_metadata dest) w))"
  by (simp add: file_exists_def)


lemma file_exists_no_hash:
  "files_get_metadata d (now w) dest = Inr rh \<Longrightarrow> compute_dropbox_hash h fp = Inl e \<Longrightarrow>
   file_exists d h fp dest w = (Inl e, call (Files_get_metadata dest) w)"
  by (simp add: file_exists_def)


lemma file_exists_extends:
  "\<exists>dels. trace (snd (file_exists d h fp dest w)) = trace w @ Files_get_metadata dest # dels \<and>
     (dels = [] \<or> dels = [Files_delete dest]) \<and>
     lists (snd (file_exists d h fp dest w)) = lists w"
  by (simp add: file_exists_def Let_def split: sum.splits)

lemma upload_file_complete:
  assumes "uploads_return d" and r: "files h p = Readable bs"
  shows "\<exists>w' evs. upload_file d h p dest w = (Inr (), w') \<and> trace w' = trace w @ evs \<and>
           complete_upload bs dest evs"
proof -
  from assms(1) have "fst (upload_file_body d h p dest w) = Inr ()"
    unfolding uploads_return_def sessions_return_def
    by (intro upload_file_body_returns [OF r]) blast+
  then obtain w' where b: "upload_file_body d h p dest w = (Inr (), w')"
    by (cases "upload_file_body d h p dest w") simp
  from upload_file_body_complete [OF r b] upload_file_first_returns [OF b]
  show ?thesis by blast
qed

text \<open>What \<^verbatim>\<open>process_snapshot\<close> does after the size of the local file has been read.\<close>

lemma process_snapshot_sized:
  "getsize h (local_path s) = Inr n \<Longrightarrow>
   process_snapshot dir d h s w =
     (case file_exists d h (local_path s) (dropbox_path dir s)
             (log Info (''Uploading to: '' @ dropbox_path dir s) (log Info (''Slug: '' @ slug s) w)) of
        (Inl e, w1) \<Rightarrow> (Inr (), log Exception_log ''Upload failed'' w1)
      | (Inr True, w1) \<Rightarrow>
          (Inr (), log Info ''Already found in Dropbox with the same hash'' w1)
      | (Inr False, w1) \<Rightarrow>
          (case upload_file d h (local_path s) (dropbox_path dir s) w1 of
             (Inl e, w2) \<Rightarrow> (Inr (), log Exception_log ''Upload failed'' w2)
           | (Inr u, w2) \<Rightarrow> (Inr (), w2)))"
  by (simp add: process_snapshot_def Let_def)

lemma process_snapshot_returns:
  "getsize h (local_path s) = Inr n \<Longrightarrow> fst (process_snapshot dir d h s w) = Inr ()"
  by (simp add: process_snapshot_sized split: prod.splits sum.splits bool.splits)

lemma process_snapshot_raises:
  "getsize h (local_path s) = Inl e \<Longrightarrow> process_snapshot dir d h s w = (Inl e, w)"
  by (simp add: process_snapshot_def Let_def)


lemma upload_step:
  fixes d h p t w1
  defines "r \<equiv> (case upload_file d h p t w1 of
                   (Inl e, w2) \<Rightarrow> (Inr () :: error + unit, log Exception_log ''Upload failed'' w2)
                 | (Inr u, w2) \<Rightarrow> (Inr (), w2))"
  shows "fst r = Inr () \<and>
    (\<exists>evs. trace (snd r) = trace w1 @ evs \<and> (\<forall>e \<in> set evs. is_upload_event e) \<and>
       lists (snd r) = lists w1 \<and>
       (uploads_return d \<and> files h p = Readable bs \<longrightarrow> complete_upload bs t evs))"
proof -
  obtain res w2 where up: "upload_file d h p t w1 = (res, w2)"
    by (cases "upload_file d h p t w1")
  from upload_file_extends [of d h p t w1] up obtain evs where
    evs: "trace w2 = trace w1 @ evs" "\<forall>e \<in> set evs. is_upload_event e" "lists w2 = lists w1"
    by auto
  have tr: "trace (snd r) = trace w2" and li: "lists (snd r) = lists w2" and "fst r = Inr ()"
    using up by (simp_all add: r_def split: sum.splits)
  moreover have "complete_upload bs t evs" if "uploads_return d" "files h p = Readable bs"
  proof -
    from upload_file_complete [OF that, of t w1] up obtain evs' where
      "trace w2 = trace w1 @ evs'" "complete_upload bs t evs'"
      by auto
    with evs(1) show ?thesis by simp
  qed
  ultimately show ?thesis using evs by auto
qed

section \<open>Claims about the per-snapshot decision\<close>



lemma uploads_return_dbx_after: "uploads_return (dbx_after 0 m)"
  by (simp add: uploads_return_def sessions_return_def dbx_after_def)

lemma complete_upload_small:
  "length bs \<le> CHUNK_SIZE \<Longrightarrow> complete_upload bs dest evs \<longleftrightarrow> evs = [Files_upload bs dest]"
  by (simp add: complete_upload_def)


section \<open>Facts about the handler and the batch\<close>

lemma now_announce [simp]: "now (announce dir s w) = now w"
  by (simp add: announce_def)

lemma trace_announce [simp]: "trace (announce dir s w) = trace w"
  by (simp add: announce_def)

lemma lists_announce [simp]: "lists (announce dir s w) = lists w"
  by (simp add: announce_def)

lemma process_snapshot_try_except:
  "getsize h (local_path s) = Inr n \<Longrightarrow>
   process_snapshot dir d h s w =
     (case process_snapshot_try dir d h s (announce dir s w) of
        (Inl e, w2) \<Rightarrow> (Inr (), log Exception_log ''Upload failed'' w2)
      | (Inr u, w2) \<Rightarrow> (Inr (), w2))"
  by (simp add: process_snapshot_sized process_snapshot_try_def announce_def
           split: prod.splits sum.splits bool.splits)

lemma upload_file_first_attempt:
  "\<exists>more. trace (snd (upload_file d h p dest w))
            = trace (snd (upload_file_body d h p dest w)) @ more"
proof -
  obtain r w' where b: "upload_file_body d h p dest w = (r, w')"
    by (cases "upload_file_body d h p dest w")
  have uf: "upload_file d h p dest w = retry_loop (Suc 2) (upload_file_body d h p dest) w"
    by (simp add: upload_file_def retry_def)
  show ?thesis
  proof (cases r)
    case (Inr u)
    with b show ?thesis by (simp add: uf retry_loop_first_returns)
  next
    case (Inl e)
    from retry_loop_extends [of "upload_file_body d h p dest" is_upload_event 2 w',
        OF upload_file_body_extends]
    obtain evs where "trace (snd (retry_loop 2 (upload_file_body d h p dest) w')) = trace w' @ evs"
      by blast
    moreover have "retry_loop (Suc 2) (upload_file_body d h p dest) w
        = retry_loop 2 (upload_file_body d h p dest) w'"
      using b Inl by (simp only: retry_loop.simps prod.case sum.case)
    ultimately show ?thesis using b by (simp add: uf)
  qed
qed

lemma upload_file_starts_at_zero:
  assumes "files h p = Readable bs"
  shows "\<exists>rest. trace (snd (upload_file d h p dest w)) = trace w @ first_call bs dest # rest"
proof -
  from upload_file_body_first_call [OF assms, of d dest w] obtain rest where
    "trace (snd (upload_file_body d h p dest w)) = trace w @ first_call bs dest # rest"
    by blast
  moreover from upload_file_first_attempt [of d h p dest w] obtain more where
    "trace (snd (upload_file d h p dest w)) = trace (snd (upload_file_body d h p dest w)) @ more"
    by blast
  ultimately have "trace (snd (upload_file d h p dest w))
      = trace w @ first_call bs dest # (rest @ more)"
    by simp
  then show ?thesis by blast
qed

lemma process_snapshot_calls:
  assumes "getsize h (local_path s) = Inr n"
  shows "\<exists>evs. trace (snd (process_snapshot dir d h s w))
            = trace w @ Files_get_metadata (dropbox_path dir s) # evs \<and>
           (\<forall>e \<in> set evs. \<not> is_metadata_event e) \<and>
           lists (snd (process_snapshot dir d h s w)) = lists w"
proof -
  let ?p = "local_path s" and ?t = "dropbox_path dir s"
  let ?w0 = "log Info (''Uploading to: '' @ ?t) (log Info (''Slug: '' @ slug s) w)"
  note ps = process_snapshot_sized [OF assms, of dir d w]
  obtain res w1 where fe: "file_exists d h ?p ?t ?w0 = (res, w1)"
    by (cases "file_exists d h ?p ?t ?w0")
  from file_exists_extends [of d h ?p ?t ?w0] fe obtain dels where
    w1: "trace w1 = trace w @ Files_get_metadata ?t # dels" "lists w1 = lists w"
    and dels: "dels = [] \<or> dels = [Files_delete ?t]"
    by auto
  from dels have nm: "\<forall>e \<in> set dels. \<not> is_metadata_event e" by auto
  show ?thesis
  proof (cases res)
    case (Inl e)
    with fe w1 nm show ?thesis by (simp add: ps)
  next
    case (Inr b)
    show ?thesis
    proof (cases b)
      case True
      with Inr fe w1 nm show ?thesis by (simp add: ps)
    next
      case False
      then have bf: "b = False" by simp
      have eq: "process_snapshot dir d h s w =
          (case upload_file d h ?p ?t w1 of
             (Inl e, w2) \<Rightarrow> (Inr (), log Exception_log ''Upload failed'' w2)
           | (Inr u, w2) \<Rightarrow> (Inr (), w2))"
        unfolding ps fe Inr bf by simp
      from upload_step [of d h ?p ?t w1] obtain evs where
        evs: "trace (snd (process_snapshot dir d h s w)) = trace w1 @ evs"
          "\<forall>e \<in> set evs. is_upload_event e"
          "lists (snd (process_snapshot dir d h s w)) = lists w1"
        unfolding eq by auto
      from evs(2) have "\<forall>e \<in> set evs. \<not> is_metadata_event e"
        by (metis is_metadata_event.elims(2) is_upload_event.simps(5))
      with nm have "\<forall>e \<in> set (dels @ evs). \<not> is_metadata_event e" by auto
      moreover have "trace (snd (process_snapshot dir d h s w))
          = trace w @ Files_get_metadata ?t # (dels @ evs)"
        using evs(1) w1(1) by simp
      ultimately show ?thesis using evs(3) w1(2) by (intro exI [of _ "dels @ evs"]) simp
    qed
  qed
qed

lemma backup_loop_all:
  assumes "\<forall>s \<in> set ss. \<not> isl (getsize h (local_path s))"
  shows "fst (backup_loop dir d h ss w) = Inr () \<and>
    (\<exists>evs. trace (snd (backup_loop dir d h ss w)) = trace w @ evs \<and>
       filter is_metadata_event evs = map (\<lambda>s. Files_get_metadata (dropbox_path dir s)) ss) \<and>
    lists (snd (backup_loop dir d h ss w)) = lists w"
  using assms
proof (induction ss arbitrary: w)
  case Nil
  show ?case by simp
next
  case (Cons s ss)
  from Cons.prems obtain n where n: "getsize h (local_path s) = Inr n"
    by (metis isl_def list.set_intros(1) sum.exhaust_sel)
  obtain w' where ps: "process_snapshot dir d h s w = (Inr (), w')"
    using process_snapshot_returns [OF n, of dir d w]
    by (cases "process_snapshot dir d h s w") simp
  from process_snapshot_calls [OF n, of dir d w] ps obtain evs where
    evs: "trace w' = trace w @ Files_get_metadata (dropbox_path dir s) # evs"
      "\<forall>e \<in> set evs. \<not> is_metadata_event e" "lists w' = lists w"
    by auto
  from Cons.IH [of w'] Cons.prems obtain evs' where ih:
    "fst (backup_loop dir d h ss w') = Inr ()"
    "trace (snd (backup_loop dir d h ss w')) = trace w' @ evs'"
    "filter is_metadata_event evs' = map (\<lambda>s. Files_get_metadata (dropbox_path dir s)) ss"
    "lists (snd (backup_loop dir d h ss w')) = lists w'"
    by auto
  have run: "backup_loop dir d h (s # ss) w = backup_loop dir d h ss w'"
    using ps by simp
  let ?evs = "Files_get_metadata (dropbox_path dir s) # evs @ evs'"
  have "trace (snd (backup_loop dir d h (s # ss) w)) = trace w @ ?evs"
    unfolding run using ih(2) evs(1) by simp
  moreover have "filter is_metadata_event ?evs
      = map (\<lambda>s. Files_get_metadata (dropbox_path dir s)) (s # ss)"
    using ih(3) evs(2) by simp
  ultimately show ?case using ih(1,4) evs(3) unfolding run by (intro conjI exI [of _ ?evs]) simp_all
qed

lemma slice_to_subset: "set (slice_to k xs) \<subseteq> set xs"
  by (simp add: slice_to_def set_take_subset)

lemma backup_returns:
  assumes "\<forall>s \<in> set (lists w r). \<not> isl (getsize h (local_path s))"
  shows "fst (backup d h c r w) = Inr () \<and> lists (snd (backup d h c r w)) = lists w"
proof (cases "lists w r = []")
  case True
  then show ?thesis by (simp add: backup_def)
next
  case False
  define ys where "ys = (case keep c of
      None \<Rightarrow> lists w r
    | Some k \<Rightarrow> if k \<noteq> 0 \<and> int (length (lists w r)) > k then slice_to k (lists w r)
               else lists w r)"
  have "set ys \<subseteq> set (lists w r)"
    using slice_to_subset [of _ "lists w r"] by (auto simp: ys_def split: option.splits)
  with assms have "\<forall>s \<in> set ys. \<not> isl (getsize h (local_path s))" by blast
  from backup_loop_all [OF this, of "dropbox_dir c" d w]
  have "fst (backup_loop (dropbox_dir c) d h ys w) = Inr ()"
    "lists (snd (backup_loop (dropbox_dir c) d h ys w)) = lists w"
    by simp_all
  moreover have "backup d h c r w = backup_loop (dropbox_dir c) d h ys w"
    using False by (simp add: backup_def ys_def Let_def)
  ultimately show ?thesis by simp
qed

section \<open>Claims about errors\<close>

text \<open>
  Claim C9. Whatever exception the metadata fetch raises, \<^verbatim>\<open>file_exists\<close> returns
  \<open>False\<close> after that one call, with an info line and no delete. The caller
  \<^verbatim>\<open>process_snapshot\<close> then uploads: for a readable local file its calls are the
  metadata fetch followed by upload calls only, the first of which starts at byte 0 of the
  file, and they are one whole upload of the file when the upload calls return.
\<close>

theorem metadata_error_means_absent:
  "(files_get_metadata d (now w) dest = Inl e \<longrightarrow>
      file_exists d h fp dest w =
        (Inr False, log Info ''No existing snapshot in dropox with this name''
                      (call (Files_get_metadata dest) w))) \<and>
   (files_get_metadata d (now w) (dropbox_path dir s) = Inl e \<and>
    files h (local_path s) = Readable bs \<longrightarrow>
      fst (process_snapshot dir d h s w) = Inr () \<and>
      (\<exists>rest. calls_since w (snd (process_snapshot dir d h s w))
                = Files_get_metadata (dropbox_path dir s)
                  # first_call bs (dropbox_path dir s) # rest \<and>
         (\<forall>x \<in> set rest. is_upload_event x) \<and>
         (uploads_return d \<longrightarrow>
            complete_upload bs (dropbox_path dir s)
              (first_call bs (dropbox_path dir s) # rest))))"
proof (rule conjI)
  show "files_get_metadata d (now w) dest = Inl e \<longrightarrow>
      file_exists d h fp dest w =
        (Inr False, log Info ''No existing snapshot in dropox with this name''
                      (call (Files_get_metadata dest) w))"
    by (simp add: file_exists_absent)
next
  let ?p = "local_path s" and ?t = "dropbox_path dir s"
  let ?w0 = "log Info (''Uploading to: '' @ ?t) (log Info (''Slug: '' @ slug s) w)"
  let ?w1 = "log Info ''No existing snapshot in dropox with this name''
               (call (Files_get_metadata ?t) ?w0)"
  show "files_get_metadata d (now w) ?t = Inl e \<and> files h ?p = Readable bs \<longrightarrow>
      fst (process_snapshot dir d h s w) = Inr () \<and>
      (\<exists>rest. calls_since w (snd (process_snapshot dir d h s w))
                = Files_get_metadata ?t # first_call bs ?t # rest \<and>
         (\<forall>x \<in> set rest. is_upload_event x) \<and>
         (uploads_return d \<longrightarrow> complete_upload bs ?t (first_call bs ?t # rest)))"
  proof (rule impI)
    assume a: "files_get_metadata d (now w) ?t = Inl e \<and> files h ?p = Readable bs"
    then have r: "files h ?p = Readable bs" and m: "files_get_metadata d (now ?w0) ?t = Inl e"
      by simp_all
    note ps = process_snapshot_sized [OF getsize_Readable [OF r], of dir d w]
    have fe: "file_exists d h ?p ?t ?w0 = (Inr False, ?w1)"
      using m by (rule file_exists_absent)
    have eq: "process_snapshot dir d h s w =
        (case upload_file d h ?p ?t ?w1 of
           (Inl e, w2) \<Rightarrow> (Inr (), log Exception_log ''Upload failed'' w2)
         | (Inr u, w2) \<Rightarrow> (Inr (), w2))"
      unfolding ps fe by simp
    from upload_step [of d h ?p ?t ?w1 bs] obtain evs where
      ok: "fst (process_snapshot dir d h s w) = Inr ()" and
      evs: "trace (snd (process_snapshot dir d h s w)) = trace ?w1 @ evs"
        "\<forall>x \<in> set evs. is_upload_event x"
        "uploads_return d \<and> files h ?p = Readable bs \<longrightarrow> complete_upload bs ?t evs"
      unfolding eq by auto
    from upload_file_starts_at_zero [OF r, of d ?t ?w1] obtain rest' where
      "trace (snd (upload_file d h ?p ?t ?w1)) = trace ?w1 @ first_call bs ?t # rest'"
      by blast
    moreover have "trace (snd (process_snapshot dir d h s w))
        = trace (snd (upload_file d h ?p ?t ?w1))"
      unfolding eq by (simp split: prod.splits sum.splits)
    ultimately have "evs = first_call bs ?t # rest'"
      using evs(1) by simp
    then have "calls_since w (snd (process_snapshot dir d h s w))
          = Files_get_metadata ?t # first_call bs ?t # rest' \<and>
        (\<forall>x \<in> set rest'. is_upload_event x) \<and>
        (uploads_return d \<longrightarrow> complete_upload bs ?t (first_call bs ?t # rest'))"
      using evs r by (simp add: calls_since_def)
    then show "fst (process_snapshot dir d h s w) = Inr () \<and>
        (\<exists>rest. calls_since w (snd (process_snapshot dir d h s w))
                  = Files_get_metadata ?t # first_call bs ?t # rest \<and>
           (\<forall>x \<in> set rest. is_upload_event x) \<and>
           (uploads_return d \<longrightarrow> complete_upload bs ?t (first_call bs ?t # rest)))"
      using ok by blast
  qed
qed

theorem metadata_error_means_absent_witness:
  "files_get_metadata (dbx_after 0 (Inl (RemoteError ''expired_access_token''))) (now world0)
     ''/d/a.tar'' = Inl (RemoteError ''expired_access_token'') \<and>
   files (host_with (Readable [1, 2, 3])) (local_path (snap ''a'' 1)) = Readable [1, 2, 3] \<and>
   fst (file_exists (dbx_after 0 (Inl (RemoteError ''expired_access_token'')))
          (host_with (Readable [1, 2, 3])) ''/backup/a.tar'' ''/d/a.tar'' world0) = Inr False \<and>
   calls_since world0
     (snd (process_snapshot ''/d'' (dbx_after 0 (Inl (RemoteError ''expired_access_token'')))
             (host_with (Readable [1, 2, 3])) (snap ''a'' 1) world0))
     = [Files_get_metadata ''/d/a.tar'', Files_upload [1, 2, 3] ''/d/a.tar'']"
proof -
  let ?d = "dbx_after 0 (Inl (RemoteError ''expired_access_token''))"
  let ?h = "host_with (Readable [1, 2, 3])" and ?s = "snap ''a'' 1"
  have m: "files_get_metadata ?d (now world0) ''/d/a.tar'' = Inl (RemoteError ''expired_access_token'')"
    by (simp add: dbx_after_def)
  have f: "files ?h (local_path ?s) = Readable [1, 2, 3]"
    by (simp add: host_with_def)
  have t: "dropbox_path ''/d'' ?s = ''/d/a.tar''"
    by (simp add: dropbox_path_def path_join_def snap_def)
  have small: "length [1, 2, 3 :: byte] \<le> CHUNK_SIZE"
    by (simp add: CHUNK_SIZE_def)
  have fc: "first_call [1, 2, 3] ''/d/a.tar'' = Files_upload [1, 2, 3] ''/d/a.tar''"
    using small by (simp add: first_call_def)
  note inst = metadata_error_means_absent
    [of ?d world0 "''/d/a.tar''" "RemoteError ''expired_access_token''" ?h "''/backup/a.tar''"
        "''/d''" ?s "[1, 2, 3]"]
  from inst m have fe: "fst (file_exists ?d ?h ''/backup/a.tar'' ''/d/a.tar'' world0) = Inr False"
    by simp
  from inst m f obtain rest where
    "calls_since world0 (snd (process_snapshot ''/d'' ?d ?h ?s world0))
       = Files_get_metadata ''/d/a.tar'' # Files_upload [1, 2, 3] ''/d/a.tar'' # rest"
    "complete_upload [1, 2, 3] ''/d/a.tar'' (Files_upload [1, 2, 3] ''/d/a.tar'' # rest)"
    unfolding t fc using uploads_return_dbx_after [of "Inl (RemoteError ''expired_access_token'')"]
    by auto
  then have "calls_since world0 (snd (process_snapshot ''/d'' ?d ?h ?s world0))
       = [Files_get_metadata ''/d/a.tar'', Files_upload [1, 2, 3] ''/d/a.tar'']"
    using complete_upload_small [OF small] by simp
  with m f fe show ?thesis by blast
qed

text \<open>
  Claim C4, as stated, fails: the size of the local file is read before the \<^verbatim>\<open>try\<close>,
  so for a snapshot whose file is absent \<^verbatim>\<open>process_snapshot\<close> raises, and the loop of
  \<^verbatim>\<open>backup\<close> ends there: the second snapshot, whose file is readable, gets no call.
\<close>

theorem process_snapshot_raises_counterexample:
  "process_snapshot ''/d'' (dbx_after 0 (Inl (RemoteError ''not_found'')))
     (host_missing ''/backup/a.tar'' (Readable [1, 2, 3])) (snap ''a'' 1) world0
     = (Inl FileNotFoundError, world0) \<and>
   backup_loop ''/d'' (dbx_after 0 (Inl (RemoteError ''not_found'')))
     (host_missing ''/backup/a.tar'' (Readable [1, 2, 3])) [snap ''a'' 1, snap ''b'' 2] world0
     = (Inl FileNotFoundError, world0)"
proof -
  have "getsize (host_missing ''/backup/a.tar'' (Readable [1, 2, 3])) (local_path (snap ''a'' 1))
      = Inl FileNotFoundError"
    by (simp add: getsize_def host_missing_def local_path_def path_join_def BACKUP_DIR_def snap_def)
  then have "process_snapshot ''/d'' (dbx_after 0 (Inl (RemoteError ''not_found'')))
     (host_missing ''/backup/a.tar'' (Readable [1, 2, 3])) (snap ''a'' 1) world0
     = (Inl FileNotFoundError, world0)"
    by (rule process_snapshot_raises)
  then show ?thesis by simp
qed

text \<open>
  Claim C4, amended. When the size of each snapshot's local file can be read,
  \<^verbatim>\<open>process_snapshot\<close> returns for each of them from every state: an error of
  \<^verbatim>\<open>file_exists\<close> or of \<^verbatim>\<open>upload_file\<close> is dropped after the line
  \<open>Upload failed\<close> is logged. The loop of \<^verbatim>\<open>backup\<close> then returns and has fetched the
  metadata of every snapshot of the batch, in order, whatever failed in between; and
  \<^verbatim>\<open>backup\<close> itself returns on a list of such snapshots.
\<close>

theorem process_snapshot_swallows:
  assumes "\<forall>s \<in> set ss. \<not> isl (getsize h (local_path s))"
  shows "(\<forall>s \<in> set ss. \<forall>v.
            fst (process_snapshot dir d h s v) = Inr () \<and>
            (\<forall>e v'. process_snapshot_try dir d h s (announce dir s v) = (Inl e, v') \<longrightarrow>
               snd (process_snapshot dir d h s v) = log Exception_log ''Upload failed'' v')) \<and>
         fst (backup_loop dir d h ss w) = Inr () \<and>
         filter is_metadata_event (calls_since w (snd (backup_loop dir d h ss w)))
           = map (\<lambda>s. Files_get_metadata (dropbox_path dir s)) ss \<and>
         (set (lists w r) \<subseteq> set ss \<longrightarrow> fst (backup d h c r w) = Inr ())"
proof (intro conjI ballI allI impI)
  fix s v assume "s \<in> set ss"
  with assms obtain n where n: "getsize h (local_path s) = Inr n"
    by (metis isl_def sum.exhaust_sel)
  then show "fst (process_snapshot dir d h s v) = Inr ()"
    by (rule process_snapshot_returns)
  fix e v' assume "process_snapshot_try dir d h s (announce dir s v) = (Inl e, v')"
  then show "snd (process_snapshot dir d h s v) = log Exception_log ''Upload failed'' v'"
    by (simp add: process_snapshot_try_except [OF n])
next
  from backup_loop_all [OF assms, of dir d w]
  show "fst (backup_loop dir d h ss w) = Inr ()"
    and "filter is_metadata_event (calls_since w (snd (backup_loop dir d h ss w)))
           = map (\<lambda>s. Files_get_metadata (dropbox_path dir s)) ss"
    by (auto simp: calls_since_def)
next
  assume "set (lists w r) \<subseteq> set ss"
  with assms have "\<forall>s \<in> set (lists w r). \<not> isl (getsize h (local_path s))" by blast
  then show "fst (backup d h c r w) = Inr ()" by (simp add: backup_returns)
qed

theorem process_snapshot_swallows_witness:
  "getsize (host_with (Readable [1, 2, 3])) (local_path (snap ''a'' 1)) = Inr 3 \<and>
   getsize (host_with (Readable [1, 2, 3])) (local_path (snap ''b'' 2)) = Inr 3 \<and>
   fst (backup_loop ''/d'' (dbx_after 9 (Inr ''ffff'')) (host_with (Readable [1, 2, 3]))
          [snap ''a'' 1, snap ''b'' 2] world0) = Inr () \<and>
   filter is_metadata_event
     (calls_since world0
        (snd (backup_loop ''/d'' (dbx_after 9 (Inr ''ffff'')) (host_with (Readable [1, 2, 3]))
                [snap ''a'' 1, snap ''b'' 2] world0)))
   = [Files_get_metadata ''/d/a.tar'', Files_get_metadata ''/d/b.tar''] \<and>
   calls_since world0
     (snd (backup_loop ''/d'' (dbx_after 9 (Inr ''ffff'')) (host_with (Readable [1, 2, 3]))
             [snap ''a'' 1, snap ''b'' 2] world0))
   = [Files_get_metadata ''/d/a.tar'', Files_delete ''/d/a.tar'',
      Files_get_metadata ''/d/b.tar'', Files_delete ''/d/b.tar'']"
proof -
  let ?h = "host_with (Readable [1, 2, 3])" and ?d = "dbx_after 9 (Inr ''ffff'')"
  have sz: "\<forall>s \<in> set [snap ''a'' 1, snap ''b'' 2]. \<not> isl (getsize ?h (local_path s))"
    by (simp add: getsize_def host_with_def)
  have t: "dropbox_path ''/d'' (snap ''a'' 1) = ''/d/a.tar''"
    "dropbox_path ''/d'' (snap ''b'' 2) = ''/d/b.tar''"
    by (simp_all add: dropbox_path_def path_join_def snap_def)
  have run: "calls_since world0
      (snd (backup_loop ''/d'' ?d ?h [snap ''a'' 1, snap ''b'' 2] world0))
    = [Files_get_metadata ''/d/a.tar'', Files_delete ''/d/a.tar'',
       Files_get_metadata ''/d/b.tar'', Files_delete ''/d/b.tar'']"
    by (simp add: process_snapshot_def file_exists_def compute_dropbox_hash_def open_rb_def
          getsize_def host_with_def dbx_after_def block_hashes_one_block CHUNK_SIZE_def
          hexdigest_def hex_digit_def t Let_def calls_since_def world0_def now_def)
  have sa: "getsize ?h (local_path (snap ''a'' 1)) = Inr 3"
    and sb: "getsize ?h (local_path (snap ''b'' 2)) = Inr 3"
    by (simp_all add: getsize_def host_with_def)
  from process_snapshot_swallows [OF sz, of "''/d''" ?d world0] sa sb run
  show ?thesis by (simp add: t)
qed

text \<open>
  Claim C8, as stated, fails: with a remote object present and a local file that cannot
  be read, the error of the hash computation leaves \<^verbatim>\<open>file_exists\<close> and is caught by
  the handler of \<^verbatim>\<open>process_snapshot\<close>; the only call made is the metadata fetch, and
  nothing is uploaded.
\<close>

theorem unreadable_not_uploaded_counterexample:
  "calls_since world0
     (snd (process_snapshot ''/d'' (dbx_after 0 (Inr ''ffff'')) (host_with (Unreadable 3))
             (snap ''a'' 1) world0))
   = [Files_get_metadata ''/d/a.tar'']"
  by (simp add: process_snapshot_def file_exists_def compute_dropbox_hash_def open_rb_def
        getsize_def host_with_def dbx_after_def dropbox_path_def path_join_def snap_def
        Let_def calls_since_def world0_def now_def)

text \<open>
  Claim C8, amended. For a snapshot whose remote object exists and whose local file is
  present but cannot be read, the read error leaves \<^verbatim>\<open>compute_dropbox_hash\<close> and
  \<^verbatim>\<open>file_exists\<close>; \<^verbatim>\<open>process_snapshot\<close> catches it, logs \<open>Upload failed\<close> and
  returns, and its only call is the metadata fetch: no delete and no upload. When the
  local file is absent, the size lookup raises first and the error leaves
  \<^verbatim>\<open>process_snapshot\<close> with no call made.
\<close>

theorem unreadable_not_uploaded:
  "(files h (local_path s) = Unreadable n \<and>
    files_get_metadata d (now w) (dropbox_path dir s) = Inr rh \<longrightarrow>
      compute_dropbox_hash h (local_path s) = Inl PermissionError \<and>
      fst (file_exists d h (local_path s) (dropbox_path dir s) (announce dir s w))
        = Inl PermissionError \<and>
      process_snapshot dir d h s w
        = (Inr (), log Exception_log ''Upload failed''
                     (call (Files_get_metadata (dropbox_path dir s)) (announce dir s w))) \<and>
      calls_since w (snd (process_snapshot dir d h s w))
        = [Files_get_metadata (dropbox_path dir s)]) \<and>
   (files h (local_path s) = Missing \<longrightarrow>
      process_snapshot dir d h s w = (Inl FileNotFoundError, w))"
proof (rule conjI)
  let ?p = "local_path s" and ?t = "dropbox_path dir s"
  show "files h ?p = Unreadable n \<and> files_get_metadata d (now w) ?t = Inr rh \<longrightarrow>
      compute_dropbox_hash h ?p = Inl PermissionError \<and>
      fst (file_exists d h ?p ?t (announce dir s w)) = Inl PermissionError \<and>
      process_snapshot dir d h s w
        = (Inr (), log Exception_log ''Upload failed''
                     (call (Files_get_metadata ?t) (announce dir s w))) \<and>
      calls_since w (snd (process_snapshot dir d h s w)) = [Files_get_metadata ?t]"
  proof (rule impI)
    assume a: "files h ?p = Unreadable n \<and> files_get_metadata d (now w) ?t = Inr rh"
    then have hash: "compute_dropbox_hash h ?p = Inl PermissionError"
      by (simp add: compute_dropbox_hash_Unreadable)
    from a have size: "getsize h ?p = Inr n" by (simp add: getsize_def)
    from a have "files_get_metadata d (now (announce dir s w)) ?t = Inr rh" by simp
    then have fe: "file_exists d h ?p ?t (announce dir s w)
        = (Inl PermissionError, call (Files_get_metadata ?t) (announce dir s w))"
      using hash by (rule file_exists_no_hash)
    then have ps: "process_snapshot dir d h s w
        = (Inr (), log Exception_log ''Upload failed''
                     (call (Files_get_metadata ?t) (announce dir s w)))"
      by (simp add: process_snapshot_try_except [OF size] process_snapshot_try_def)
    then have "calls_since w (snd (process_snapshot dir d h s w)) = [Files_get_metadata ?t]"
      by (simp add: calls_since_def)
    with hash fe ps show "compute_dropbox_hash h ?p = Inl PermissionError \<and>
      fst (file_exists d h ?p ?t (announce dir s w)) = Inl PermissionError \<and>
      process_snapshot dir d h s w
        = (Inr (), log Exception_log ''Upload failed''
                     (call (Files_get_metadata ?t) (announce dir s w))) \<and>
      calls_since w (snd (process_snapshot dir d h s w)) = [Files_get_metadata ?t]"
      by simp
  qed
next
  show "files h (local_path s) = Missing \<longrightarrow>
      process_snapshot dir d h s w = (Inl FileNotFoundError, w)"
    by (simp add: process_snapshot_raises getsize_def)
qed

theorem unreadable_not_uploaded_witness:
  "files (host_with (Unreadable 3)) (local_path (snap ''a'' 1)) = Unreadable 3 \<and>
   files_get_metadata (dbx_after 0 (Inr ''ffff'')) (now world0)
     (dropbox_path ''/d'' (snap ''a'' 1)) = Inr ''ffff'' \<and>
   fst (process_snapshot ''/d'' (dbx_after 0 (Inr ''ffff'')) (host_with (Unreadable 3))
          (snap ''a'' 1) world0) = Inr () \<and>
   logs (snd (process_snapshot ''/d'' (dbx_after 0 (Inr ''ffff'')) (host_with (Unreadable 3))
          (snap ''a'' 1) world0))
     = [(Info, ''Slug: a''), (Info, ''Uploading to: /d/a.tar''),
        (Exception_log, ''Upload failed'')] \<and>
   files (host_with Missing) (local_path (snap ''a'' 1)) = Missing \<and>
   process_snapshot ''/d'' (dbx_after 0 (Inr ''ffff'')) (host_with Missing) (snap ''a'' 1) world0
     = (Inl FileNotFoundError, world0)"
proof -
  let ?d = "dbx_after 0 (Inr ''ffff'')" and ?s = "snap ''a'' 1"
  have u: "files (host_with (Unreadable 3)) (local_path ?s) = Unreadable 3"
    and m: "files (host_with Missing) (local_path ?s) = Missing"
    by (simp_all add: host_with_def)
  have g: "files_get_metadata ?d (now world0) (dropbox_path ''/d'' ?s) = Inr ''ffff''"
    by (simp add: dbx_after_def)
  from unreadable_not_uploaded [of "host_with (Unreadable 3)" ?s 3 ?d world0 "''/d''" "''ffff''"] u g
  have "process_snapshot ''/d'' ?d (host_with (Unreadable 3)) ?s world0
      = (Inr (), log Exception_log ''Upload failed''
                   (call (Files_get_metadata (dropbox_path ''/d'' ?s)) (announce ''/d'' ?s world0)))"
    by blast
  then have a: "fst (process_snapshot ''/d'' ?d (host_with (Unreadable 3)) ?s world0) = Inr ()"
    and b: "logs (snd (process_snapshot ''/d'' ?d (host_with (Unreadable 3)) ?s world0))
      = [(Info, ''Slug: a''), (Info, ''Uploading to: /d/a.tar''),
         (Exception_log, ''Upload failed'')]"
    by (simp_all add: announce_def dropbox_path_def path_join_def world0_def snap_def)
  from unreadable_not_uploaded [of "host_with Missing" ?s 3 ?d world0 "''/d''" "''ffff''"] m
  have c: "process_snapshot ''/d'' ?d (host_with Missing) ?s world0 = (Inl FileNotFoundError, world0)"
    by blast
  from u g a b m c show ?thesis by blast
qed

section \<open>Facts about the retention step\<close>

lemma delete_loop_lists: "lists (snd (delete_loop dir d h xs w)) = lists w"
  by (induction xs arbitrary: w) (simp_all add: Let_def split: sum.splits)

lemma deletion_calls_Cons:
  "deletion_calls dir (s # ss)
     = Hassio_post (remove_path s) # Files_delete (dropbox_path dir s) # deletion_calls dir ss"
  by (simp add: deletion_calls_def)

lemma deletion_calls_Nil: "deletion_calls dir [] = []"
  by (simp add: deletion_calls_def)

lemma delete_loop_returns:
  assumes "deletes_return d h"
  shows "fst (delete_loop dir d h xs w) = Inr () \<and>
    trace (snd (delete_loop dir d h xs w)) = trace w @ deletion_calls dir xs"
proof (induction xs arbitrary: w)
  case Nil
  show ?case by (simp add: deletion_calls_Nil)
next
  case (Cons s ss)
  let ?w1 = "call (Hassio_post (remove_path s)) w"
  let ?w2 = "call (Files_delete (dropbox_path dir s)) ?w1"
  from assms obtain u u' where
    "hassio_post h (now w) (remove_path s) = Inr u"
    "files_delete d (now ?w1) (dropbox_path dir s) = Inr u'"
    unfolding deletes_return_def by (metis isl_def sum.exhaust_sel)
  then have "delete_loop dir d h (s # ss) w = delete_loop dir d h ss ?w2"
    by (simp add: Let_def)
  with Cons.IH [of ?w2] show ?case by (simp add: deletion_calls_Cons)
qed

lemma delete_loop_prefix:
  "\<exists>k. trace (snd (delete_loop dir d h xs w)) = trace w @ take k (deletion_calls dir xs)"
proof (induction xs arbitrary: w)
  case Nil
  show ?case by simp
next
  case (Cons s ss)
  let ?a = "Hassio_post (remove_path s)" and ?b = "Files_delete (dropbox_path dir s)"
  let ?w1 = "call ?a w"
  let ?w2 = "call ?b ?w1"
  show ?case
  proof (cases "hassio_post h (now w) (remove_path s)")
    case (Inl e)
    then have "trace (snd (delete_loop dir d h (s # ss) w))
        = trace w @ take 1 (deletion_calls dir (s # ss))"
      by (simp add: Let_def deletion_calls_Cons)
    then show ?thesis by blast
  next
    case post: (Inr u)
    show ?thesis
    proof (cases "files_delete d (now ?w1) (dropbox_path dir s)")
      case (Inl e)
      with post have "trace (snd (delete_loop dir d h (s # ss) w))
          = trace w @ take 2 (deletion_calls dir (s # ss))"
        by (simp add: Let_def deletion_calls_Cons numeral_2_eq_2)
      then show ?thesis by blast
    next
      case (Inr u')
      with post have run: "delete_loop dir d h (s # ss) w = delete_loop dir d h ss ?w2"
        by (simp add: Let_def)
      from Cons.IH [of ?w2] obtain k where
        "trace (snd (delete_loop dir d h ss ?w2)) = trace ?w2 @ take k (deletion_calls dir ss)"
        by blast
      then have "trace (snd (delete_loop dir d h (s # ss) w))
          = trace w @ take (Suc (Suc k)) (deletion_calls dir (s # ss))"
        unfolding run by (simp add: deletion_calls_Cons)
      then show ?thesis by blast
    qed
  qed
qed

lemma set_deletion_calls:
  "set (deletion_calls dir xs)
     = (\<lambda>s. Hassio_post (remove_path s)) ` set xs \<union> (\<lambda>s. Files_delete (dropbox_path dir s)) ` set xs"
  by (induction xs) (auto simp: deletion_calls_Nil deletion_calls_Cons)

lemma remove_path_inj: "remove_path a = remove_path b \<Longrightarrow> slug a = slug b"
  by (simp add: remove_path_def)

lemma limit_snapshots_expired:
  assumes "keep c = Some k" and "k \<noteq> 0" and "k < int (length (lists w r))"
  shows "limit_snapshots d h c r w =
    delete_loop (dropbox_dir c) d h (slice_from k (rev (sort_key date (lists w r))))
      (w\<lparr>lists := (lists w)(r := rev (sort_key date (lists w r)))\<rparr>)"
  using assms by (simp add: limit_snapshots_def Let_def)

lemma slice_from_oldest:
  "0 < k \<Longrightarrow> slice_from k (rev (sort_key date xs)) = rev (oldest (length xs - nat k) xs)"
  by (simp add: slice_from_def oldest_def drop_rev)

lemma oldest_newest_mset:
  "mset (oldest (length xs - k) xs) + mset (newest k xs) = mset xs"
proof -
  have "mset (oldest (length xs - k) xs) + mset (newest k xs)
      = mset (take (length xs - k) (sort_key date xs) @ drop (length xs - k) (sort_key date xs))"
    by (simp only: oldest_def newest_def mset_append)
  then show ?thesis by simp
qed

lemma oldest_before_newest:
  assumes "a \<in> set (oldest (length xs - k) xs)" and "b \<in> set (newest k xs)"
  shows "date a \<le> date b"
proof -
  let ?S = "sort_key date xs" and ?n = "length xs - k"
  have "sorted (map date (take ?n ?S @ drop ?n ?S))"
    by (simp add: sorted_sort_key)
  then have "\<forall>x \<in> set (map date (take ?n ?S)). \<forall>y \<in> set (map date (drop ?n ?S)). x \<le> y"
    unfolding map_append sorted_append by blast
  with assms show ?thesis by (simp add: oldest_def newest_def)
qed

lemma oldest_newest_disjoint:
  assumes "distinct xs"
  shows "set (oldest (length xs - k) xs) \<inter> set (newest k xs) = {}"
  unfolding oldest_def newest_def
  by (rule set_take_disj_set_drop_if_distinct) (simp_all add: assms)


lemma oldest_subset: "set (oldest n xs) \<subseteq> set xs"
  unfolding oldest_def using set_take_subset [of n "sort_key date xs"] by simp

lemma newest_subset: "set (newest n xs) \<subseteq> set xs"
  unfolding newest_def using set_drop_subset [of "length xs - n" "sort_key date xs"] by simp

lemma kept_untouched:
  assumes "distinct (map f xs)" and "b \<in> set (newest k xs)"
  shows "f b \<notin> f ` set (oldest (length xs - k) xs)"
proof
  assume "f b \<in> f ` set (oldest (length xs - k) xs)"
  then obtain a where a: "a \<in> set (oldest (length xs - k) xs)" "f a = f b" by auto
  from assms(1) have d: "distinct xs" and inj: "inj_on f (set xs)"
    by (simp_all add: distinct_map)
  from a(1) assms(2) have "a \<in> set xs" "b \<in> set xs"
    using oldest_subset newest_subset by blast+
  with inj a(2) have "a = b" by (auto dest: inj_onD)
  with a(1) assms(2) oldest_newest_disjoint [OF d, of k] show False by blast
qed

section \<open>Claims about the retention step\<close>

text \<open>
  Claim C3. A list of \<open>M\<close> snapshots and \<open>keep = N\<close> with \<open>0 < N < M\<close>. When the
  removal requests and delete calls return, \<^verbatim>\<open>limit_snapshots\<close> returns and its calls
  are exactly, for each of the \<open>M - N\<close> oldest snapshots by date (newest of them first),
  the removal request by slug followed by the delete of the derived remote path. These
  are \<open>M - N\<close> snapshots; together with the \<open>N\<close> newest they make up the list, and none
  of them is newer than any of the \<open>N\<close> newest. With distinct slugs and distinct remote
  paths, no call of \<^verbatim>\<open>limit_snapshots\<close> names one of the \<open>N\<close> newest, whether calls
  raise or not.
\<close>

theorem limit_snapshots_deletes_oldest:
  assumes "keep c = Some N" and "0 < N" and "N < int (length (lists w r))"
  shows
    "(deletes_return d h \<longrightarrow>
        fst (limit_snapshots d h c r w) = Inr () \<and>
        calls_since w (snd (limit_snapshots d h c r w))
          = deletion_calls (dropbox_dir c)
              (rev (oldest (length (lists w r) - nat N) (lists w r)))) \<and>
     length (oldest (length (lists w r) - nat N) (lists w r)) = length (lists w r) - nat N \<and>
     mset (oldest (length (lists w r) - nat N) (lists w r)) + mset (newest (nat N) (lists w r))
       = mset (lists w r) \<and>
     (\<forall>a \<in> set (oldest (length (lists w r) - nat N) (lists w r)).
        \<forall>b \<in> set (newest (nat N) (lists w r)). date a \<le> date b) \<and>
     (distinct (map slug (lists w r)) \<and>
      distinct (map (dropbox_path (dropbox_dir c)) (lists w r)) \<longrightarrow>
        (\<forall>b \<in> set (newest (nat N) (lists w r)).
           Hassio_post (remove_path b)
             \<notin> set (calls_since w (snd (limit_snapshots d h c r w))) \<and>
           Files_delete (dropbox_path (dropbox_dir c) b)
             \<notin> set (calls_since w (snd (limit_snapshots d h c r w)))))"
proof -
  let ?xs = "lists w r" and ?dir = "dropbox_dir c"
  let ?n = "length ?xs - nat N"
  let ?w1 = "w\<lparr>lists := (lists w)(r := rev (sort_key date ?xs))\<rparr>"
  have nz: "N \<noteq> 0" using assms(2) by simp
  have run: "limit_snapshots d h c r w = delete_loop ?dir d h (rev (oldest ?n ?xs)) ?w1"
    using limit_snapshots_expired [OF assms(1) nz assms(3), of d h] slice_from_oldest [OF assms(2)]
    by simp
  have tr: "trace ?w1 = trace w" by simp
  have a: "fst (limit_snapshots d h c r w) = Inr () \<and>
        calls_since w (snd (limit_snapshots d h c r w))
          = deletion_calls ?dir (rev (oldest ?n ?xs))"
    if "deletes_return d h"
    using delete_loop_returns [OF that, of ?dir "rev (oldest ?n ?xs)" ?w1]
    unfolding run by (simp add: calls_since_def)
  have b: "length (oldest ?n ?xs) = ?n"
    by (simp add: oldest_def)
  have c: "mset (oldest ?n ?xs) + mset (newest (nat N) ?xs) = mset ?xs"
    by (rule oldest_newest_mset)
  have e: "\<forall>a \<in> set (oldest ?n ?xs). \<forall>b \<in> set (newest (nat N) ?xs). date a \<le> date b"
    using oldest_before_newest by blast
  have f: "Hassio_post (remove_path b) \<notin> set (calls_since w (snd (limit_snapshots d h c r w))) \<and>
      Files_delete (dropbox_path ?dir b) \<notin> set (calls_since w (snd (limit_snapshots d h c r w)))"
    if ds: "distinct (map slug ?xs)" and dp: "distinct (map (dropbox_path ?dir) ?xs)"
      and nb: "b \<in> set (newest (nat N) ?xs)" for b
  proof -
    from delete_loop_prefix [of ?dir d h "rev (oldest ?n ?xs)" ?w1] obtain j where
      "trace (snd (limit_snapshots d h c r w))
         = trace w @ take j (deletion_calls ?dir (rev (oldest ?n ?xs)))"
      unfolding run by auto
    then have "calls_since w (snd (limit_snapshots d h c r w))
        = take j (deletion_calls ?dir (rev (oldest ?n ?xs)))"
      by (simp add: calls_since_def)
    then have sub: "set (calls_since w (snd (limit_snapshots d h c r w)))
        \<subseteq> (\<lambda>s. Hassio_post (remove_path s)) ` set (oldest ?n ?xs)
          \<union> (\<lambda>s. Files_delete (dropbox_path ?dir s)) ` set (oldest ?n ?xs)"
      using set_take_subset [of j "deletion_calls ?dir (rev (oldest ?n ?xs))"]
      by (simp add: set_deletion_calls)
    have 1: "Hassio_post (remove_path b)
        \<notin> set (calls_since w (snd (limit_snapshots d h c r w)))"
    proof
      assume "Hassio_post (remove_path b) \<in> set (calls_since w (snd (limit_snapshots d h c r w)))"
      with sub obtain a where "a \<in> set (oldest ?n ?xs)" "remove_path a = remove_path b"
        by fastforce
      then have "slug b \<in> slug ` set (oldest ?n ?xs)"
        using remove_path_inj [of a b] by (metis imageI)
      with kept_untouched [OF ds nb] show False ..
    qed
    have 2: "Files_delete (dropbox_path ?dir b)
        \<notin> set (calls_since w (snd (limit_snapshots d h c r w)))"
    proof
      assume "Files_delete (dropbox_path ?dir b)
          \<in> set (calls_since w (snd (limit_snapshots d h c r w)))"
      with sub obtain a where "a \<in> set (oldest ?n ?xs)"
        "dropbox_path ?dir a = dropbox_path ?dir b"
        by fastforce
      then have "dropbox_path ?dir b \<in> dropbox_path ?dir ` set (oldest ?n ?xs)"
        by (metis imageI)
      with kept_untouched [OF dp nb] show False ..
    qed
    from 1 2 show ?thesis ..
  qed
  from a b c e f show ?thesis by blast
qed


theorem limit_snapshots_deletes_oldest_witness:
  "keep \<lparr>dropbox_dir = ''/d'', keep = Some 2\<rparr> = Some 2 \<and> (0 :: int) < 2 \<and>
   2 < int (length (lists (world_listing [snap ''b'' 2, snap ''a'' 1, snap ''c'' 3]) 0)) \<and>
   deletes_return (dbx_after 0 (Inr ''ffff'')) (host_with Missing) \<and>
   distinct (map slug (lists (world_listing [snap ''b'' 2, snap ''a'' 1, snap ''c'' 3]) 0)) \<and>
   distinct (map (dropbox_path ''/d'')
               (lists (world_listing [snap ''b'' 2, snap ''a'' 1, snap ''c'' 3]) 0)) \<and>
   fst (limit_snapshots (dbx_after 0 (Inr ''ffff'')) (host_with Missing)
          \<lparr>dropbox_dir = ''/d'', keep = Some 2\<rparr> 0
          (world_listing [snap ''b'' 2, snap ''a'' 1, snap ''c'' 3])) = Inr () \<and>
   calls_since (world_listing [snap ''b'' 2, snap ''a'' 1, snap ''c'' 3])
     (snd (limit_snapshots (dbx_after 0 (Inr ''ffff'')) (host_with Missing)
             \<lparr>dropbox_dir = ''/d'', keep = Some 2\<rparr> 0
             (world_listing [snap ''b'' 2, snap ''a'' 1, snap ''c'' 3])))
     = [Hassio_post ''snapshots/a/remove'', Files_delete ''/d/a.tar'']"
proof -
  let ?c = "\<lparr>dropbox_dir = ''/d'', keep = Some 2\<rparr>"
  let ?xs = "[snap ''b'' 2, snap ''a'' 1, snap ''c'' 3]"
  let ?w = "world_listing ?xs"
  let ?d = "dbx_after 0 (Inr ''ffff'')" and ?h = "host_with Missing"
  have xs: "lists ?w 0 = ?xs" by (simp add: world_listing_def)
  have k: "keep ?c = Some 2" and dir: "dropbox_dir ?c = ''/d''" by simp_all
  have m: "2 < int (length (lists ?w 0))" by (simp add: xs)
  have r: "deletes_return ?d ?h"
    by (simp add: deletes_return_def dbx_after_def host_with_def)
  have ds: "distinct (map slug (lists ?w 0))"
    unfolding xs by (simp add: snap_def)
  have dp: "distinct (map (dropbox_path ''/d'') (lists ?w 0))"
    unfolding xs by (simp add: snap_def dropbox_path_def path_join_def)
  have old: "rev (oldest (length (lists ?w 0) - nat 2) (lists ?w 0)) = [snap ''a'' 1]"
    unfolding xs by (simp add: oldest_def snap_def)
  have calls: "deletion_calls ''/d'' [snap ''a'' 1]
      = [Hassio_post ''snapshots/a/remove'', Files_delete ''/d/a.tar'']"
    by (simp add: deletion_calls_def remove_path_def dropbox_path_def path_join_def snap_def)
  from limit_snapshots_deletes_oldest [OF k _ m, of ?d ?h] r
  have "fst (limit_snapshots ?d ?h ?c 0 ?w) = Inr () \<and>
      calls_since ?w (snd (limit_snapshots ?d ?h ?c 0 ?w))
        = [Hassio_post ''snapshots/a/remove'', Files_delete ''/d/a.tar'']"
    unfolding dir old calls by simp
  with k m r ds dp show ?thesis by simp
qed

text \<open>
  Claim C10. With a nonzero \<open>keep\<close> and a longer list, \<^verbatim>\<open>limit_snapshots\<close> leaves the
  list object it was given sorted by date, newest first (the stable ascending sort,
  reversed), and every other list object as it was; this holds whether or not a deletion
  call raises afterwards, so the caller's list stays reordered after the call.
\<close>

theorem limit_snapshots_sorts_in_place:
  assumes "keep c = Some k" and "k \<noteq> 0" and "k < int (length (lists w r))"
  shows "lists (snd (limit_snapshots d h c r w))
           = (lists w)(r := rev (sort_key date (lists w r)))"
  unfolding limit_snapshots_expired [OF assms] by (simp add: delete_loop_lists)

theorem limit_snapshots_sorts_in_place_witness:
  "keep \<lparr>dropbox_dir = ''/d'', keep = Some 2\<rparr> = Some 2 \<and> (2 :: int) \<noteq> 0 \<and>
   2 < int (length (lists (world_listing [snap ''b'' 2, snap ''a'' 1, snap ''c'' 3]) 0)) \<and>
   lists (snd (limit_snapshots (dbx_after 9 (Inr ''ffff'')) (host_with Missing)
                 \<lparr>dropbox_dir = ''/d'', keep = Some 2\<rparr> 0
                 (world_listing [snap ''b'' 2, snap ''a'' 1, snap ''c'' 3]))) 0
     = [snap ''c'' 3, snap ''b'' 2, snap ''a'' 1] \<and>
   fst (limit_snapshots (dbx_after 9 (Inr ''ffff'')) (host_with Missing)
          \<lparr>dropbox_dir = ''/d'', keep = Some 2\<rparr> 0
          (world_listing [snap ''b'' 2, snap ''a'' 1, snap ''c'' 3]))
     = Inl (RemoteError ''timeout'')"
proof -
  let ?c = "\<lparr>dropbox_dir = ''/d'', keep = Some 2\<rparr>"
  let ?xs = "[snap ''b'' 2, snap ''a'' 1, snap ''c'' 3]"
  let ?w = "world_listing ?xs"
  let ?d = "dbx_after 9 (Inr ''ffff'')" and ?h = "host_with Missing"
  have xs: "lists ?w 0 = ?xs" by (simp add: world_listing_def)
  have k: "keep ?c = Some 2" by simp
  have nz: "(2 :: int) \<noteq> 0" by simp
  have m: "2 < int (length (lists ?w 0))" by (simp add: xs)
  have sorted: "rev (sort_key date (lists ?w 0)) = [snap ''c'' 3, snap ''b'' 2, snap ''a'' 1]"
    unfolding xs by (simp add: snap_def)
  from limit_snapshots_sorts_in_place [OF k nz m, of ?d ?h]
  have a: "lists (snd (limit_snapshots ?d ?h ?c 0 ?w)) 0
      = [snap ''c'' 3, snap ''b'' 2, snap ''a'' 1]"
    by (simp add: sorted)
  have b: "fst (limit_snapshots ?d ?h ?c 0 ?w) = Inl (RemoteError ''timeout'')"
    by (simp add: limit_snapshots_def world_listing_def slice_from_def snap_def Let_def
          host_with_def dbx_after_def now_def call_def)
  from k nz m a b show ?thesis by blast
qed

section \<open>Facts about the content hash\<close>

text \<open>
  The digest is a function of the content and of the digest function alone: the path, the
  other files and the state play no part.
\<close>

lemma compute_dropbox_hash_content:
  "files h p = Readable bs \<Longrightarrow> files h' q = Readable bs \<Longrightarrow> sha256 h = sha256 h' \<Longrightarrow>
   compute_dropbox_hash h p = compute_dropbox_hash h' q"
  by (simp add: compute_dropbox_hash_Readable)

text \<open>The blocks are the consecutive runs of \<^verbatim>\<open>CHUNK_SIZE\<close> bytes of the content.\<close>

lemma block_hashes_block:
  "length a = CHUNK_SIZE \<Longrightarrow> block_hashes sha (a @ b) = sha a @ block_hashes sha b"
  using CHUNK_SIZE_pos by (subst block_hashes.simps) (auto simp: Let_def)

lemma hex_digit_inj:
  assumes "m < 16" and "n < 16" and "hex_digit m = hex_digit n"
  shows "m = n"
proof -
  have "distinct ''0123456789abcdef''" by simp
  moreover have "m < length ''0123456789abcdef''" "n < length ''0123456789abcdef''"
    using assms by simp_all
  ultimately show ?thesis
    using assms(3) unfolding hex_digit_def by (simp only: nth_eq_iff_index_eq)
qed

lemma hex_byte_inj:
  fixes x y :: byte
  assumes "hex_digit (unat x div 16) = hex_digit (unat y div 16)"
    and "hex_digit (unat x mod 16) = hex_digit (unat y mod 16)"
  shows "x = y"
proof -
  have "unat x < 256" "unat y < 256"
    using unsigned_less [of x, where ?'a = nat] unsigned_less [of y, where ?'a = nat] by simp_all
  then have "unat x div 16 < 16" "unat y div 16 < 16" by simp_all
  with assms(1) have d: "unat x div 16 = unat y div 16" by (intro hex_digit_inj)
  have "unat x mod 16 < 16" "unat y mod 16 < 16" by simp_all
  with assms(2) have m: "unat x mod 16 = unat y mod 16" by (intro hex_digit_inj)
  from d m have "unat x = unat y" by (metis div_mult_mod_eq)
  then show ?thesis by (simp add: word_unat_eq_iff)
qed

lemma hexdigest_inj: "hexdigest a = hexdigest b \<Longrightarrow> a = b"
proof (induction a arbitrary: b)
  case Nil
  then show ?case by (cases b) (simp_all add: hexdigest_def)
next
  case (Cons x a)
  then obtain y b' where b: "b = y # b'" by (cases b) (simp_all add: hexdigest_def)
  with Cons.prems have "hex_digit (unat x div 16) = hex_digit (unat y div 16)"
    "hex_digit (unat x mod 16) = hex_digit (unat y mod 16)" "hexdigest a = hexdigest b'"
    by (simp_all add: hexdigest_def)
  with Cons.IH [of b'] b show ?case by (simp add: hex_byte_inj)
qed

text \<open>
  Where digests have a fixed positive length \<open>L\<close>, two different contents with the same
  block digests exhibit two different blocks with one digest.
\<close>

lemma block_hashes_collision:
  assumes len: "\<And>x. length (sha x) = L" and pos: "0 < L"
  shows "block_hashes sha a = block_hashes sha b \<Longrightarrow> a \<noteq> b \<Longrightarrow>
         \<exists>x y. x \<noteq> y \<and> sha x = sha y"
proof (induction "length a" arbitrary: a b rule: less_induct)
  case less
  have unfold: "block_hashes sha c = sha (take CHUNK_SIZE c) @ block_hashes sha (drop CHUNK_SIZE c)"
    if "c \<noteq> []" for c
    using that CHUNK_SIZE_pos by (subst block_hashes.simps) (simp add: Let_def)
  have nonempty: "block_hashes sha c \<noteq> []" if "c \<noteq> []" for c
    using unfold [OF that] len [of "take CHUNK_SIZE c"] pos by auto
  show ?case
  proof (cases "a = [] \<or> b = []")
    case True
    with less.prems nonempty [of a] nonempty [of b] show ?thesis
      by (auto simp: block_hashes_empty)
  next
    case False
    then have na: "a \<noteq> []" and nb: "b \<noteq> []" by simp_all
    from less.prems(1) unfold [OF na] unfold [OF nb] len
    have first: "sha (take CHUNK_SIZE a) = sha (take CHUNK_SIZE b)"
      and rest: "block_hashes sha (drop CHUNK_SIZE a) = block_hashes sha (drop CHUNK_SIZE b)"
      by simp_all
    show ?thesis
    proof (cases "take CHUNK_SIZE a = take CHUNK_SIZE b")
      case False
      with first show ?thesis by blast
    next
      case True
      with less.prems(2) have "drop CHUNK_SIZE a \<noteq> drop CHUNK_SIZE b"
        by (metis append_take_drop_id)
      moreover have "length (drop CHUNK_SIZE a) < length a"
        using na CHUNK_SIZE_pos by simp
      ultimately show ?thesis using less.hyps rest by blast
    qed
  qed
qed

text \<open>
  Hence two readable files with different contents and the same digest exhibit a collision
  of the digest function. Whether \<^verbatim>\<open>hashlib.sha256\<close> has one on two given files is not
  decided here.
\<close>

lemma compute_dropbox_hash_collision:
  assumes "files h p = Readable a" and "files h q = Readable b" and "a \<noteq> b"
    and len: "\<And>x. length (sha256 h x) = L" and pos: "0 < L"
    and same: "compute_dropbox_hash h p = compute_dropbox_hash h q"
  shows "\<exists>x y. x \<noteq> y \<and> sha256 h x = sha256 h y"
proof -
  from same assms(1,2) have "hexdigest (sha256 h (block_hashes (sha256 h) a))
      = hexdigest (sha256 h (block_hashes (sha256 h) b))"
    by (simp add: compute_dropbox_hash_Readable)
  then have top: "sha256 h (block_hashes (sha256 h) a) = sha256 h (block_hashes (sha256 h) b)"
    by (rule hexdigest_inj)
  show ?thesis
  proof (cases "block_hashes (sha256 h) a = block_hashes (sha256 h) b")
    case True
    from block_hashes_collision [of "sha256 h" L a b, OF len pos True assms(3)]
    show ?thesis .
  next
    case False
    with top show ?thesis by blast
  qed
qed

end
